theory Spec2Isabelle
  imports Complex_Main "HOL-Library.Multiset" "HOL-Library.AList" "HOL-Library.Sublist"
begin

section \<open>Data model of \<open>helper_objects.py\<close>\<close>

text \<open>
  The embedding follows class \<open>BombParty\<close> and class \<open>BombPartyPlayer\<close>.

  \<^item> Users are the keys of the \<open>party\<close> dict and are formatted into messages with an
    f-string; they are modelled as strings.
  \<^item> A Python string is the list of the bytes of its UTF-8 encoding. Equality, membership,
    concatenation and the substring test are the same on the encoding; \<open>len\<close> counts code
    points (\<open>py_len\<close>); \<open>str.lower\<close> is a parameter \<open>lower\<close> of the operations that call it,
    so that what is proved holds for every behaviour of \<open>str.lower\<close>.
  \<^item> Python's \<open>int\<close> is \<open>int\<close>. A float is the real number it represents. The clock
    \<open>perf_counter()\<close> and the \<open>timer\<close> attribute (an int until the first subtraction of a
    float) hold such numbers. A float subtraction is the exact subtraction followed by the
    rounding of the machine, a parameter \<open>fl\<close> of the operation that subtracts, so that
    what is proved holds for every rounding with the properties it assumes.
  \<^item> A dict is an association list in insertion order, without repeated keys.
  \<^item> Every exception the code can raise is a value of type \<open>error\<close>.
  \<^item> The clock and the random numbers are inputs of the operations that read them.
\<close>

datatype error = KeyError | IndexError | AttributeError | ValueError

type_synonym user = string

record BombPartyPlayer =
  user :: user
  lives :: int

definition dead :: "BombPartyPlayer \<Rightarrow> bool" where
  "dead p = (lives p = 0)"

text \<open>
  \<open>bomb_settings\<close> is a dict whose keys are the four keys of \<open>default_settings\<close> from
  construction on: \<open>set_setting\<close> assigns to an existing key only, and nothing else writes
  the dict. The coercion \<open>type(self.bomb_settings[setting])(value)\<close> keeps the type of each
  entry. So the dict is a record with one typed field for each key.
\<close>

record settings =
  s_difficulty :: string
  s_timer :: int
  s_minimum_time :: int
  s_lives :: int

datatype setting_value = StrVal string | IntVal int

record BombParty =
  bomb_party_letters :: "(string \<times> string list) list"
  in_progress :: bool
  started :: bool
  used_words :: "string list"
  party :: "(user \<times> BombPartyPlayer) list"
  current_player_index :: nat
  current_letters :: string
  bomb_start_time :: real
  turn_order :: "user list"
  timer :: real
  bomb_settings :: settings

section \<open>Builtins the code calls\<close>

text \<open>
  \<open>len(text)\<close>: the number of code points, which is the number of bytes of the encoding
  that are not continuation bytes (\<open>0x80\<close> to \<open>0xBF\<close>).
\<close>

definition continuation :: "char \<Rightarrow> bool" where
  "continuation c = (128 \<le> (of_char c :: nat) \<and> (of_char c :: nat) < 192)"

definition py_len :: "string \<Rightarrow> nat" where
  "py_len m = length (filter (\<lambda>c. \<not> continuation c) m)"



text \<open>\<open>str(n)\<close> for an integer: decimal digits, with a minus sign when negative.\<close>

fun str_nat :: "nat \<Rightarrow> string" where
  "str_nat n = (if n < 10 then [''0123456789'' ! n]
                else str_nat (n div 10) @ [''0123456789'' ! (n mod 10)])"

definition str_int :: "int \<Rightarrow> string" where
  "str_int i = (if i < 0 then CHR ''-'' # str_nat (nat (- i)) else str_nat (nat i))"

text \<open>
  \<open>random.shuffle(x)\<close> is the loop
  \<^verbatim>\<open>for i in reversed(range(1, len(x))): j = randbelow(i + 1); x[i], x[j] = x[j], x[i]\<close>.
  The random source is a function \<open>rnd\<close>: \<open>rnd i mod (i + 1)\<close> is the value drawn at
  loop index \<open>i\<close>.
\<close>

fun shuffle_loop :: "(nat \<Rightarrow> nat) \<Rightarrow> nat \<Rightarrow> 'a list \<Rightarrow> 'a list" where
  "shuffle_loop rnd 0 xs = xs"
| "shuffle_loop rnd (Suc k) xs =
     (let i = Suc k; j = rnd i mod (i + 1)
      in shuffle_loop rnd k (xs[i := xs ! j, j := xs ! i]))"

definition shuffle :: "(nat \<Rightarrow> nat) \<Rightarrow> 'a list \<Rightarrow> 'a list" where
  "shuffle rnd xs = shuffle_loop rnd (length xs - 1) xs"

text \<open>
  \<open>int(text)\<close> is a parameter \<open>int_of\<close> of \<open>set_setting\<close>: \<open>None\<close> stands for
  \<open>ValueError\<close>, the only exception \<open>int\<close> raises on a string. The function \<open>py_int\<close> is the
  instance used to evaluate the examples. It is \<open>int\<close> on the strings of ASCII characters
  with at most 4300 digits: surrounding white space (space, \<open>\t\<close>, \<open>\n\<close>, \<open>\v\<close>, \<open>\f\<close>,
  \<open>\r\<close>), an optional sign, decimal digits, single underscores between digits. On other
  strings it is not \<open>int\<close> (which reads the decimal digits and the white space of Unicode
  and refuses more than 4300 digits), and no theorem but the examples depends on it.
\<close>

definition is_space :: "char \<Rightarrow> bool" where
  "is_space c = (c \<in> set [CHR '' '', CHR 0x09, CHR 0x0A, CHR 0x0B, CHR 0x0C, CHR 0x0D])"

definition strip :: "string \<Rightarrow> string" where
  "strip m = rev (dropWhile is_space (rev (dropWhile is_space m)))"

definition digit_val :: "char \<Rightarrow> nat option" where
  "digit_val c = map_of (zip ''0123456789'' [0, 1, 2, 3, 4, 5, 6, 7, 8, 9]) c"

fun parse_digits :: "nat \<Rightarrow> string \<Rightarrow> nat option" where
  "parse_digits acc [] = Some acc"
| "parse_digits acc (c # cs) =
     (if c = CHR ''_'' then
        (case cs of [] \<Rightarrow> None
         | d # ds \<Rightarrow> (case digit_val d of None \<Rightarrow> None
                      | Some v \<Rightarrow> parse_digits (10 * acc + v) ds))
      else (case digit_val c of None \<Rightarrow> None
            | Some v \<Rightarrow> parse_digits (10 * acc + v) cs))"

definition parse_unsigned :: "string \<Rightarrow> nat option" where
  "parse_unsigned m =
     (case m of [] \<Rightarrow> None
      | c # cs \<Rightarrow> (case digit_val c of None \<Rightarrow> None | Some v \<Rightarrow> parse_digits v cs))"

definition py_int :: "string \<Rightarrow> int option" where
  "py_int m =
     (case strip m of
        [] \<Rightarrow> None
      | c # cs \<Rightarrow>
          if c = CHR ''-'' then map_option (\<lambda>n. - int n) (parse_unsigned cs)
          else if c = CHR ''+'' then map_option int (parse_unsigned cs)
          else map_option int (parse_unsigned (c # cs)))"

section \<open>Class \<open>BombParty\<close>\<close>

definition valid_difficulties :: "string list" where
  "valid_difficulties = [''easy'', ''medium'', ''hard'', ''nightmare'', ''impossible'']"

definition setting_names :: "string list" where
  "setting_names = [''difficulty'', ''timer'', ''minimum_time'', ''lives'']"

definition default_settings :: settings where
  "default_settings =
     \<lparr>s_difficulty = ''medium'', s_timer = 30, s_minimum_time = 5, s_lives = 3\<rparr>"

definition set_default_values :: "BombParty \<Rightarrow> BombParty" where
  "set_default_values s =
     s\<lparr>in_progress := False, started := False, used_words := [], party := [],
       current_player_index := 0, current_letters := [], bomb_start_time := 0,
       turn_order := [], timer := 30, bomb_settings := default_settings\<rparr>"

text \<open>
  \<open>__init__\<close>: the letter table read from the data files is the parameter \<open>letters\<close>.
\<close>

definition BombParty_init :: "(string \<times> string list) list \<Rightarrow> BombParty" where
  "BombParty_init letters =
     \<lparr>bomb_party_letters = letters, in_progress = False, started = False, used_words = [],
      party = [], current_player_index = 0, current_letters = [], bomb_start_time = 0,
      turn_order = [], timer = 30, bomb_settings = default_settings\<rparr>"

definition add_player :: "BombParty \<Rightarrow> user \<Rightarrow> BombParty" where
  "add_player s u =
     (if u \<notin> fst ` set (party s)
      then s\<lparr>party := AList.update u \<lparr>user = u, lives = s_lives (bomb_settings s)\<rparr> (party s)\<rparr>
      else s)"

definition remove_player :: "BombParty \<Rightarrow> user \<Rightarrow> BombParty" where
  "remove_player s u =
     (if u \<in> fst ` set (party s) then
        if started s then s\<lparr>party := AList.map_entry u (\<lambda>p. p\<lparr>lives := 0\<rparr>) (party s)\<rparr>
        else s\<lparr>party := AList.delete u (party s)\<rparr>
      else s)"

definition on_in_progress :: "BombParty \<Rightarrow> BombParty" where
  "on_in_progress s = s\<lparr>in_progress := True\<rparr>"

definition on_start :: "BombParty \<Rightarrow> (nat \<Rightarrow> nat) \<Rightarrow> real \<Rightarrow> BombParty" where
  "on_start s rnd now =
     s\<lparr>turn_order := shuffle rnd (map fst (party s)),
       timer := real_of_int (s_timer (bomb_settings s)),
       bomb_start_time := now,
       started := True\<rparr>"

text \<open>
  The decrement of line 107, \<open>max((0, perf_counter() - self.bomb_start_time -
  self.bomb_settings['minimum_time']))\<close>: two float subtractions, rounded one after the
  other, then the greater of 0 and the result.
\<close>

definition decrement :: "(real \<Rightarrow> real) \<Rightarrow> BombParty \<Rightarrow> real \<Rightarrow> real" where
  "decrement fl s now =
     max 0 (fl (fl (now - bomb_start_time s) - real_of_int (s_minimum_time (bomb_settings s))))"

definition on_word_used ::
  "(string \<Rightarrow> string) \<Rightarrow> (real \<Rightarrow> real) \<Rightarrow> BombParty \<Rightarrow> string \<Rightarrow> real \<Rightarrow> BombParty" where
  "on_word_used lower fl s message now =
     s\<lparr>timer := fl (timer s - decrement fl s now),
       used_words := used_words s @ [lower message]\<rparr>"

text \<open>
  Property \<open>current_player\<close>: \<open>None\<close> on an empty turn order, else
  \<open>self.party[self.turn_order[self.current_player_index]]\<close>, which raises \<open>IndexError\<close> or
  \<open>KeyError\<close>.
\<close>

definition current_player :: "BombParty \<Rightarrow> error + BombPartyPlayer option" where
  "current_player s =
     (if length (turn_order s) = 0 then Inr None
      else if current_player_index s < length (turn_order s) then
        (case map_of (party s) (turn_order s ! current_player_index s) of
           None \<Rightarrow> Inl KeyError
         | Some p \<Rightarrow> Inr (Some p))
      else Inl IndexError)"

text \<open>Reading an attribute of \<open>self.current_player\<close>: \<open>AttributeError\<close> on \<open>None\<close>.\<close>

definition current_player_obj :: "BombParty \<Rightarrow> error + BombPartyPlayer" where
  "current_player_obj s =
     (case current_player s of
        Inl e \<Rightarrow> Inl e
      | Inr None \<Rightarrow> Inl AttributeError
      | Inr (Some p) \<Rightarrow> Inr p)"

definition heart :: string where
  "heart = [CHR 0xE2, CHR 0x99, CHR 0xA5]"

definition on_explode :: "BombParty \<Rightarrow> error + (string \<times> BombParty)" where
  "on_explode s =
     (let s1 = s\<lparr>timer := real_of_int (s_timer (bomb_settings s)), bomb_start_time := 0\<rparr>
      in case current_player_obj s1 of
           Inl e \<Rightarrow> Inl e
         | Inr player \<Rightarrow>
             let l = lives player - 1;
                 s2 = s1\<lparr>party := AList.map_entry (turn_order s1 ! current_player_index s1)
                                    (\<lambda>p. p\<lparr>lives := lives p - 1\<rparr>) (party s1)\<rparr>
             in Inr (''@'' @ user player @ '' '' @
                     (if l \<noteq> 0
                      then ''You ran out of time and now have '' @ str_int l @ '' '' @
                           concat (replicate (nat l) heart) @ '' heart(s) left''
                      else ''You ran out of time and lost all your lives! YouDied''),
                     s2))"

definition on_close :: "BombParty \<Rightarrow> BombParty" where
  "on_close s = set_default_values s"

text \<open>
  \<open>next_player\<close>: the \<open>while\<close> loop may run forever, so it is a partial function whose
  value \<open>None\<close> is "does not return".
\<close>

partial_function (option) next_player_loop :: "BombParty \<Rightarrow> user \<Rightarrow> (error + BombParty) option"
  where
  "next_player_loop s player =
     (case current_player_obj s of
        Inl e \<Rightarrow> Some (Inl e)
      | Inr p \<Rightarrow>
          if lives p = 0 \<or> user p = player then
            next_player_loop
              (s\<lparr>current_player_index :=
                   (if current_player_index s \<noteq> length (turn_order s) - 1
                    then 1 + current_player_index s else 0)\<rparr>) player
          else Some (Inr s))"

declare next_player_loop.simps [code]

definition next_player :: "BombParty \<Rightarrow> real \<Rightarrow> (error + BombParty) option" where
  "next_player s now =
     (case current_player_obj s of
        Inl e \<Rightarrow> Some (Inl e)
      | Inr p \<Rightarrow>
          (case next_player_loop s (user p) of
             None \<Rightarrow> None
           | Some (Inl e) \<Rightarrow> Some (Inl e)
           | Some (Inr s') \<Rightarrow> Some (Inr (s'\<lparr>bomb_start_time := now\<rparr>))))"

text \<open>\<open>random.choice(seq)\<close> raises \<open>IndexError\<close> on an empty sequence.\<close>

definition set_letters :: "BombParty \<Rightarrow> nat \<Rightarrow> error + BombParty" where
  "set_letters s r =
     (case map_of (bomb_party_letters s) (s_difficulty (bomb_settings s)) of
        None \<Rightarrow> Inl KeyError
      | Some xs \<Rightarrow>
          if xs = [] then Inl IndexError
          else Inr (s\<lparr>current_letters := xs ! (r mod length xs)\<rparr>))"

definition get_winner :: "BombParty \<Rightarrow> BombPartyPlayer option" where
  "get_winner s =
     (let players_left = filter (\<lambda>player. lives player \<noteq> 0) (map snd (party s))
      in if length players_left = 1 then Some (players_left ! 0) else None)"

definition on_lives_set :: "BombParty \<Rightarrow> BombParty" where
  "on_lives_set s =
     s\<lparr>party := map (\<lambda>(k, p). (k, p\<lparr>lives := s_lives (bomb_settings s)\<rparr>)) (party s)\<rparr>"

text \<open>\<open>type(self.bomb_settings[setting])(value)\<close>, for \<open>setting\<close> one of the four keys.\<close>

definition coerce :: "(string \<Rightarrow> int option) \<Rightarrow> string \<Rightarrow> string \<Rightarrow> error + setting_value" where
  "coerce int_of setting raw =
     (if setting = ''difficulty'' then Inr (StrVal raw)
      else (case int_of raw of None \<Rightarrow> Inl ValueError | Some i \<Rightarrow> Inr (IntVal i)))"

text \<open>\<open>value in self.valid_bomb_settings[setting]\<close>.\<close>

definition valid_value :: "string \<Rightarrow> setting_value \<Rightarrow> bool" where
  "valid_value setting v =
     (if setting = ''difficulty'' then
        (case v of StrVal x \<Rightarrow> x \<in> set valid_difficulties | IntVal i \<Rightarrow> False)
      else if setting = ''timer'' then
        (case v of IntVal i \<Rightarrow> 5 \<le> i \<and> i < 60 + 1 | StrVal x \<Rightarrow> False)
      else if setting = ''minimum_time'' then
        (case v of IntVal i \<Rightarrow> 0 \<le> i \<and> i < 10 + 1 | StrVal x \<Rightarrow> False)
      else if setting = ''lives'' then
        (case v of IntVal i \<Rightarrow> 1 \<le> i \<and> i < 5 + 1 | StrVal x \<Rightarrow> False)
      else False)"

text \<open>\<open>self.bomb_settings[setting] = value\<close>.\<close>

definition store_setting :: "settings \<Rightarrow> string \<Rightarrow> setting_value \<Rightarrow> settings" where
  "store_setting b setting v =
     (case v of
        StrVal x \<Rightarrow> (if setting = ''difficulty'' then b\<lparr>s_difficulty := x\<rparr> else b)
      | IntVal i \<Rightarrow>
          (if setting = ''timer'' then b\<lparr>s_timer := i\<rparr>
           else if setting = ''minimum_time'' then b\<lparr>s_minimum_time := i\<rparr>
           else if setting = ''lives'' then b\<lparr>s_lives := i\<rparr>
           else b))"

definition str_value :: "setting_value \<Rightarrow> string" where
  "str_value v = (case v of StrVal x \<Rightarrow> x | IntVal i \<Rightarrow> str_int i)"

definition msg_invalid_setting :: string where
  "msg_invalid_setting =
     ''That's not a valid setting. Valid settings: difficulty, timer, minimum_time, lives''"

definition msg_invalid_value :: string where
  "msg_invalid_value = ''That's not a valid value for this setting.''"

definition msg_problem :: string where
  "msg_problem =
     ''There was a problem processing the value you gave for the specific setting.''"

definition msg_changed :: "string \<Rightarrow> setting_value \<Rightarrow> string" where
  "msg_changed setting v =
     ''The '' @ setting @ '' setting has been changed to '' @ str_value v"

text \<open>The body of the \<open>try\<close> block of \<open>set_setting\<close>.\<close>

definition set_setting_try ::
  "(string \<Rightarrow> int option) \<Rightarrow> BombParty \<Rightarrow> string \<Rightarrow> string \<Rightarrow> error + (string \<times> BombParty)"
  where
  "set_setting_try int_of s setting raw =
     (case coerce int_of setting raw of
        Inl e \<Rightarrow> Inl e
      | Inr v \<Rightarrow>
          if \<not> valid_value setting v then Inr (msg_invalid_value, s)
          else
            let s1 = s\<lparr>bomb_settings := store_setting (bomb_settings s) setting v\<rparr>;
                s2 = (if setting = ''lives'' then on_lives_set s1 else s1)
            in Inr (msg_changed setting v, s2))"

text \<open>
  \<open>set_setting\<close>: \<open>except ValueError\<close> catches the one exception of the block, which is
  raised by the coercion, before any assignment.
\<close>

definition set_setting ::
  "(string \<Rightarrow> int option) \<Rightarrow> BombParty \<Rightarrow> string \<Rightarrow> string \<Rightarrow> error + (string \<times> BombParty)"
  where
  "set_setting int_of s setting raw =
     (if setting \<notin> set setting_names then Inr (msg_invalid_setting, s)
      else (case set_setting_try int_of s setting raw of
              Inl ValueError \<Rightarrow> Inr (msg_problem, s)
            | Inl e \<Rightarrow> Inl e
            | Inr r \<Rightarrow> Inr r))"

definition check_message :: "(string \<Rightarrow> string) \<Rightarrow> BombParty \<Rightarrow> string \<Rightarrow> string option" where
  "check_message lower s message =
     (let m = lower message
      in if m \<in> set (used_words s) then Some ''That word has already been used.''
         else if \<not> sublist (current_letters s) m
           then Some (''That word does not contain your string of letters: '' @ current_letters s)
         else if py_len m = py_len (current_letters s)
           then Some ''You cannot answer with the string of letters itself.''
         else None)"

definition player_list :: "BombParty \<Rightarrow> BombPartyPlayer list" where
  "player_list s = map snd (party s)"

definition can_start :: "BombParty \<Rightarrow> bool" where
  "can_start s = (length (party s) \<ge> 2)"

section \<open>Reading the turn order\<close>

text \<open>The player that position \<open>j\<close> of the turn order names: \<open>self.party[self.turn_order[j]]\<close>.\<close>

definition player_at :: "BombParty \<Rightarrow> nat \<Rightarrow> BombPartyPlayer option" where
  "player_at s j = map_of (party s) (turn_order s ! j)"

section \<open>Sequences of calls\<close>

text \<open>
  The host calls the operations one after the other. An event is one call with its
  arguments, the clock reading and the random source included. \<open>apply_event\<close> is the call
  (with the behaviours \<open>int_of\<close>, \<open>lower\<close> and \<open>fl\<close> of the builtins it reaches),
  \<open>run\<close> a sequence of calls, each allowed by a guard \<open>G\<close> and each returning without an
  exception. The states of a lifecycle are the results of \<open>run\<close> from the constructed game.

  \<^item> \<open>word_guard\<close>: \<open>on_word_used\<close> is called only after \<open>check_message\<close> has accepted the
    same text.
  \<^item> \<open>documented\<close>: moreover the game starts once, and a round (letters, word, turn,
    explosion) takes place in a started game.
  \<^item> \<open>host_guard\<close>: moreover the bomb explodes on a current player who has lives left.
\<close>

datatype event =
    Join user
  | Leave user
  | InProgress
  | Start "nat \<Rightarrow> nat" real
  | SetLetters nat
  | WordUsed string real
  | NextPlayer real
  | Explode
  | SetSetting string string
  | Close

definition apply_event ::
  "(string \<Rightarrow> int option) \<Rightarrow> (string \<Rightarrow> string) \<Rightarrow> (real \<Rightarrow> real) \<Rightarrow> BombParty \<Rightarrow> event
     \<Rightarrow> (error + BombParty) option" where
  "apply_event int_of lower fl s e =
     (case e of
        Join u \<Rightarrow> Some (Inr (add_player s u))
      | Leave u \<Rightarrow> Some (Inr (remove_player s u))
      | InProgress \<Rightarrow> Some (Inr (on_in_progress s))
      | Start rnd now \<Rightarrow> Some (Inr (on_start s rnd now))
      | SetLetters r \<Rightarrow> Some (set_letters s r)
      | WordUsed m now \<Rightarrow> Some (Inr (on_word_used lower fl s m now))
      | NextPlayer now \<Rightarrow> next_player s now
      | Explode \<Rightarrow> Some (map_sum id snd (on_explode s))
      | SetSetting n v \<Rightarrow> Some (map_sum id snd (set_setting int_of s n v))
      | Close \<Rightarrow> Some (Inr (on_close s)))"

definition word_guard :: "(string \<Rightarrow> string) \<Rightarrow> BombParty \<Rightarrow> event \<Rightarrow> bool" where
  "word_guard lower s e =
     (case e of WordUsed m now \<Rightarrow> check_message lower s m = None | _ \<Rightarrow> True)"

definition documented :: "(string \<Rightarrow> string) \<Rightarrow> BombParty \<Rightarrow> event \<Rightarrow> bool" where
  "documented lower s e =
     (case e of
        Start rnd now \<Rightarrow> \<not> started s
      | SetLetters r \<Rightarrow> started s
      | WordUsed m now \<Rightarrow> started s \<and> check_message lower s m = None
      | NextPlayer now \<Rightarrow> started s
      | Explode \<Rightarrow> started s
      | _ \<Rightarrow> True)"

definition current_alive :: "BombParty \<Rightarrow> bool" where
  "current_alive s = (case current_player s of Inr (Some p) \<Rightarrow> 0 < lives p | _ \<Rightarrow> False)"

definition host_guard :: "(string \<Rightarrow> string) \<Rightarrow> BombParty \<Rightarrow> event \<Rightarrow> bool" where
  "host_guard lower s e =
     (documented lower s e \<and> (case e of Explode \<Rightarrow> current_alive s | _ \<Rightarrow> True))"

fun run ::
  "(string \<Rightarrow> int option) \<Rightarrow> (string \<Rightarrow> string) \<Rightarrow> (real \<Rightarrow> real)
     \<Rightarrow> (BombParty \<Rightarrow> event \<Rightarrow> bool) \<Rightarrow> BombParty \<Rightarrow> event list \<Rightarrow> BombParty option" where
  "run int_of lower fl G s [] = Some s"
| "run int_of lower fl G s (e # es) =
     (if G s e then
        (case apply_event int_of lower fl s e of
           Some (Inr s') \<Rightarrow> run int_of lower fl G s' es
         | _ \<Rightarrow> None)
      else None)"

definition lives_list :: "BombParty \<Rightarrow> int list" where
  "lives_list s = map lives (player_list s)"

text \<open>
  The shape of the states of a lifecycle: the keys of the party are distinct and every
  player is stored under the key of its user; the turn order has no repeated user and
  names users of the party; the index is a position of the turn order unless the turn
  order is empty; before the start the turn order is empty and the index is 0.
\<close>

definition well_formed :: "BombParty \<Rightarrow> bool" where
  "well_formed s =
     (distinct (map fst (party s))
      \<and> (\<forall>x\<in>set (party s). user (snd x) = fst x)
      \<and> distinct (turn_order s)
      \<and> set (turn_order s) \<subseteq> fst ` set (party s)
      \<and> (turn_order s \<noteq> [] \<longrightarrow> current_player_index s < length (turn_order s))
      \<and> (\<not> started s \<longrightarrow> turn_order s = [] \<and> current_player_index s = 0))"

section \<open>Example games\<close>

text \<open>
  Concrete inputs on which the operations are evaluated. \<open>fl_exact\<close> is the rounding on
  the numbers of the examples: small integers, which floats represent exactly together
  with their differences. \<open>lower_demo\<close> is \<open>str.lower\<close> on the texts made of ASCII
  characters, U+00DF (bytes C3 9F, unchanged) and U+0130 (bytes C4 B0, lowered to \<open>i\<close>
  followed by U+0307, bytes 69 CC 87); \<open>upper_demo\<close> is \<open>str.upper\<close> on the texts made of
  ASCII characters and U+00DF (raised to \<open>SS\<close>). No theorem but the examples depends on
  them.
\<close>

definition rnd_zero :: "nat \<Rightarrow> nat" where
  "rnd_zero i = 0"

definition fl_exact :: "real \<Rightarrow> real" where
  "fl_exact x = x"

definition lower_char :: "char \<Rightarrow> char" where
  "lower_char c =
     (case map_of (zip ''ABCDEFGHIJKLMNOPQRSTUVWXYZ'' ''abcdefghijklmnopqrstuvwxyz'') c of
        None \<Rightarrow> c | Some d \<Rightarrow> d)"

definition upper_char :: "char \<Rightarrow> char" where
  "upper_char c =
     (case map_of (zip ''abcdefghijklmnopqrstuvwxyz'' ''ABCDEFGHIJKLMNOPQRSTUVWXYZ'') c of
        None \<Rightarrow> c | Some d \<Rightarrow> d)"

fun lower_demo :: "string \<Rightarrow> string" where
  "lower_demo [] = []"
| "lower_demo [c] = [lower_char c]"
| "lower_demo (c # d # ds) =
     (if c = CHR 0xC4 \<and> d = CHR 0xB0 then [CHR 0x69, CHR 0xCC, CHR 0x87] @ lower_demo ds
      else lower_char c # lower_demo (d # ds))"

fun upper_demo :: "string \<Rightarrow> string" where
  "upper_demo [] = []"
| "upper_demo [c] = [upper_char c]"
| "upper_demo (c # d # ds) =
     (if c = CHR 0xC3 \<and> d = CHR 0x9F then ''SS'' @ upper_demo ds
      else upper_char c # upper_demo (d # ds))"

definition letters_demo :: "(string \<times> string list) list" where
  "letters_demo = [(''easy'', [''in'']), (''medium'', [''ab'', ''tr'', ''ni'']),
                   (''hard'', [''xy'']), (''nightmare'', [''zz'']), (''impossible'', [''qx''])]"

definition game_ab :: BombParty where
  "game_ab =
     on_start (add_player (add_player (BombParty_init letters_demo) ''a'') ''b'') rnd_zero 100"

definition game_abc :: BombParty where
  "game_abc =
     on_start (foldl add_player (BombParty_init letters_demo) [''a'', ''b'', ''c'']) rnd_zero 100"


definition game_won :: BombParty where
  "game_won = remove_player (remove_player game_abc ''b'') ''c''"



text \<open>The word \<open>stra\<close>, U+00DF, \<open>e\<close>, whose upper case is \<open>STRASSE\<close>.\<close>

definition word_eszett :: string where
  "word_eszett = [CHR ''s'', CHR ''t'', CHR ''r'', CHR ''a'', CHR 0xC3, CHR 0x9F, CHR ''e'']"

definition events_eszett :: "event list" where
  "events_eszett = [Join ''a'', Join ''b'', Start rnd_zero 100, SetLetters 1,
                    WordUsed word_eszett 103, NextPlayer 103, WordUsed ''STRASSE'' 104]"

definition game_eszett :: BombParty where
  "game_eszett =
     game_ab\<lparr>current_letters := ''tr'', used_words := [word_eszett, ''strasse''],
       current_player_index := 1, bomb_start_time := 103\<rparr>"

definition events_round :: "event list" where
  "events_round = [Join ''a'', Join ''b'', Start rnd_zero 100, SetLetters 0,
                   WordUsed ''Table'' 103, NextPlayer 103, WordUsed ''Cable'' 104]"

definition game_two_words :: BombParty where
  "game_two_words =
     game_ab\<lparr>current_letters := ''ab'', used_words := [''table'', ''cable''],
       current_player_index := 1, bomb_start_time := 103\<rparr>"

definition events_explode :: "event list" where
  "events_explode = [Join ''a'', Join ''b'', Start rnd_zero 100, Explode, NextPlayer 131,
                     Leave ''a'']"

definition game_exploded :: BombParty where
  "game_exploded =
     game_ab\<lparr>party := [(''a'', \<lparr>user = ''a'', lives = 0\<rparr>), (''b'', \<lparr>user = ''b'', lives = 2\<rparr>)],
       current_player_index := 1, bomb_start_time := 131\<rparr>"

definition events_leave_explode :: "event list" where
  "events_leave_explode = [Join ''a'', Join ''b'', Start rnd_zero 100, Leave ''b'', Explode]"

definition game_left_exploded :: BombParty where
  "game_left_exploded =
     game_ab\<lparr>party := [(''a'', \<lparr>user = ''a'', lives = 3\<rparr>), (''b'', \<lparr>user = ''b'', lives = - 1\<rparr>)],
       bomb_start_time := 0\<rparr>"

text \<open>A second game: after a first game with one turn, the game is closed and joined anew.\<close>

definition events_lobby :: "event list" where
  "events_lobby = [Join ''a'', Join ''b'', Start rnd_zero 100, NextPlayer 101, Close,
                   Join ''a'', Join ''b'', Join ''c'']"

definition game_lobby :: BombParty where
  "game_lobby = foldl add_player (BombParty_init letters_demo) [''a'', ''b'', ''c'']"

definition events_close :: "event list" where
  "events_close = [Join ''a'', Join ''b'', Start rnd_zero 100, Close]"

definition game_skip :: BombParty where
  "game_skip = remove_player game_abc ''c''"

text \<open>
  In a game of three the current player leaves, the bomb explodes, and the turn goes round
  to the player after the one who left.
\<close>

definition events_negative :: "event list" where
  "events_negative = [Join ''a'', Join ''b'', Join ''c'', Start rnd_zero 100, Leave ''b'',
                      Explode, NextPlayer 131, NextPlayer 132]"

definition game_negative :: BombParty where
  "game_negative =
     game_abc\<lparr>party := [(''a'', \<lparr>user = ''a'', lives = 3\<rparr>), (''b'', \<lparr>user = ''b'', lives = - 1\<rparr>),
                          (''c'', \<lparr>user = ''c'', lives = 3\<rparr>)],
       current_player_index := 2, bomb_start_time := 132\<rparr>"

section \<open>Evaluation of the example games\<close>

lemma game_ab_eq:
  "game_ab = \<lparr>bomb_party_letters = letters_demo, in_progress = False, started = True,
      used_words = [],
      party = [(''a'', \<lparr>user = ''a'', lives = 3\<rparr>), (''b'', \<lparr>user = ''b'', lives = 3\<rparr>)],
      current_player_index = 0, current_letters = [], bomb_start_time = 100,
      turn_order = [''b'', ''a''], timer = 30, bomb_settings = default_settings\<rparr>"
  by (simp add: game_ab_def on_start_def add_player_def BombParty_init_def default_settings_def
      shuffle_def rnd_zero_def)


lemma game_abc_eq:
  "game_abc = \<lparr>bomb_party_letters = letters_demo, in_progress = False, started = True,
      used_words = [],
      party = [(''a'', \<lparr>user = ''a'', lives = 3\<rparr>), (''b'', \<lparr>user = ''b'', lives = 3\<rparr>),
               (''c'', \<lparr>user = ''c'', lives = 3\<rparr>)],
      current_player_index = 0, current_letters = [], bomb_start_time = 100,
      turn_order = [''b'', ''c'', ''a''], timer = 30, bomb_settings = default_settings\<rparr>"
  by (simp add: game_abc_def on_start_def add_player_def BombParty_init_def default_settings_def
      shuffle_def rnd_zero_def)

lemma lower_examples:
  "lower_demo ''Table'' = ''table''" "lower_demo ''TABLE'' = ''table''"
  "lower_demo ''dog'' = ''dog''" "lower_demo ''AB'' = ''ab''" "lower_demo ''cable'' = ''cable''"
  "lower_demo ''table'' = ''table''" "lower_demo ''Tab'' = ''tab''" "lower_demo ''TAB'' = ''tab''"
  "lower_demo ''ab'' = ''ab''"
  by (simp_all add: lower_char_def)







lemma game_won_party:
  "party game_won = [(''a'', \<lparr>user = ''a'', lives = 3\<rparr>), (''b'', \<lparr>user = ''b'', lives = 0\<rparr>),
                     (''c'', \<lparr>user = ''c'', lives = 0\<rparr>)]"
  by (simp add: game_won_def game_abc_eq remove_player_def)

lemma py_int_examples:
  "py_int ''2'' = Some 2" "py_int ''abc'' = None" "py_int ''100'' = Some 100"
  "py_int ''45'' = Some 45" "py_int ''9'' = Some 9"
  by code_simp+

lemma coerce_examples:
  "coerce py_int ''timer'' ''abc'' = Inl ValueError"
  "coerce py_int ''timer'' ''100'' = Inr (IntVal 100)"
  "coerce py_int ''timer'' ''45'' = Inr (IntVal 45)"
  "coerce py_int ''lives'' ''9'' = Inr (IntVal 9)"
  by (simp_all add: coerce_def py_int_examples)

section \<open>Countdown decay\<close>







section \<open>The shuffle\<close>

lemma mset_shuffle_loop: "k < length xs \<Longrightarrow> mset (shuffle_loop rnd k xs) = mset xs"
proof (induction k arbitrary: xs)
  case 0
  then show ?case by simp
next
  case (Suc k)
  let ?j = "rnd (Suc k) mod (Suc k + 1)"
  let ?ys = "xs[Suc k := xs ! ?j, ?j := xs ! Suc k]"
  have "?j < Suc k + 1" by simp
  with Suc.prems have j: "?j < length xs" by linarith
  have "mset ?ys = mset xs"
    using mset_swap [OF j Suc.prems] .
  moreover have "k < length ?ys" using Suc.prems by simp
  ultimately show ?case using Suc.IH [of ?ys] by (simp add: Let_def)
qed

lemma mset_shuffle: "mset (shuffle rnd xs) = mset xs"
proof (cases xs)
  case Nil
  then show ?thesis by (simp add: shuffle_def)
next
  case (Cons a list)
  then show ?thesis by (simp add: shuffle_def mset_shuffle_loop)
qed

section \<open>Validation of a word\<close>




section \<open>The winner\<close>

lemma single_or_none:
  "(if length xs = 1 then Some (xs ! 0) else None) = (case xs of [w] \<Rightarrow> Some w | _ \<Rightarrow> None)"
  by (cases xs rule: list.exhaust; cases "tl xs") auto

lemma get_winner_nonzero:
  "get_winner s = (case filter (\<lambda>p. lives p \<noteq> 0) (player_list s) of
                     [w] \<Rightarrow> Some w | _ \<Rightarrow> None)"
  unfolding get_winner_def player_list_def Let_def by (rule single_or_none)

lemma filter_pos_nonzero:
  "\<forall>p\<in>set ps. 0 \<le> lives p
   \<Longrightarrow> filter (\<lambda>p. lives p \<noteq> 0) ps = filter (\<lambda>p. 0 < lives p) ps"
  by (rule filter_cong) auto

text \<open>
  C9, as the code has it. In every game state \<open>get_winner\<close> returns the player whose lives
  are not 0 when there is exactly one, and \<open>None\<close> otherwise: when there are two or more,
  and when there is none. When no player has lives below 0, these are the players with
  lives above 0, and \<open>get_winner\<close> returns the player with lives above 0 when there is
  exactly one, and \<open>None\<close> otherwise.
\<close>

theorem get_winner_unique:
  "(\<forall>w. filter (\<lambda>p. lives p \<noteq> 0) (player_list s) = [w] \<longrightarrow> get_winner s = Some w)
   \<and> (length (filter (\<lambda>p. lives p \<noteq> 0) (player_list s)) \<noteq> 1 \<longrightarrow> get_winner s = None)
   \<and> (2 \<le> length (filter (\<lambda>p. lives p \<noteq> 0) (player_list s)) \<longrightarrow> get_winner s = None)
   \<and> (filter (\<lambda>p. lives p \<noteq> 0) (player_list s) = [] \<longrightarrow> get_winner s = None)
   \<and> ((\<forall>p\<in>set (player_list s). 0 \<le> lives p)
        \<longrightarrow> (\<forall>w. filter (\<lambda>p. 0 < lives p) (player_list s) = [w] \<longrightarrow> get_winner s = Some w)
          \<and> (length (filter (\<lambda>p. 0 < lives p) (player_list s)) \<noteq> 1
               \<longrightarrow> get_winner s = None))"
proof -
  have a: "(\<forall>w. filter (\<lambda>p. lives p \<noteq> 0) (player_list s) = [w] \<longrightarrow> get_winner s = Some w)
       \<and> (length (filter (\<lambda>p. lives p \<noteq> 0) (player_list s)) \<noteq> 1 \<longrightarrow> get_winner s = None)"
    by (auto simp add: get_winner_def player_list_def Let_def)
  then have b: "2 \<le> length (filter (\<lambda>p. lives p \<noteq> 0) (player_list s)) \<longrightarrow> get_winner s = None"
    and c: "filter (\<lambda>p. lives p \<noteq> 0) (player_list s) = [] \<longrightarrow> get_winner s = None"
    by auto
  have d: "(\<forall>w. filter (\<lambda>p. 0 < lives p) (player_list s) = [w] \<longrightarrow> get_winner s = Some w)
          \<and> (length (filter (\<lambda>p. 0 < lives p) (player_list s)) \<noteq> 1 \<longrightarrow> get_winner s = None)"
    if "\<forall>p\<in>set (player_list s). 0 \<le> lives p"
    using a filter_pos_nonzero [OF that] by simp
  from a b c d show ?thesis by blast
qed

theorem get_winner_unique_witness:
  "map lives (player_list game_won) = [3, 0, 0]
   \<and> filter (\<lambda>p. lives p \<noteq> 0) (player_list game_won) = [\<lparr>user = ''a'', lives = 3\<rparr>]
   \<and> filter (\<lambda>p. 0 < lives p) (player_list game_won) = [\<lparr>user = ''a'', lives = 3\<rparr>]
   \<and> get_winner game_won = Some \<lparr>user = ''a'', lives = 3\<rparr>
   \<and> map lives (player_list game_abc) = [3, 3, 3]
   \<and> 2 \<le> length (filter (\<lambda>p. lives p \<noteq> 0) (player_list game_abc))
   \<and> get_winner game_abc = None"
proof -
  have f1: "filter (\<lambda>p. lives p \<noteq> 0) (player_list game_won) = [\<lparr>user = ''a'', lives = 3\<rparr>]"
    "filter (\<lambda>p. 0 < lives p) (player_list game_won) = [\<lparr>user = ''a'', lives = 3\<rparr>]"
    by (simp_all add: player_list_def game_won_party)
  have f2: "2 \<le> length (filter (\<lambda>p. lives p \<noteq> 0) (player_list game_abc))"
    by (simp add: player_list_def game_abc_eq)
  have l1: "map lives (player_list game_won) = [3, 0, 0]"
    by (simp add: player_list_def game_won_party)
  have l2: "map lives (player_list game_abc) = [3, 3, 3]"
    by (simp add: player_list_def game_abc_eq)
  show ?thesis
    using get_winner_unique [of game_won] get_winner_unique [of game_abc] f1 f2 l1 l2 by simp
qed

text \<open>
  C9 as stated fails. After the current player has left the started game and the bomb has
  exploded, the lives are 3 and -1: exactly one player has lives above 0, and
  \<open>get_winner\<close>, which counts the lives that are not 0, returns \<open>None\<close>.
\<close>

theorem get_winner_negative_counterexample:
  "run py_int lower_demo fl_exact (documented lower_demo) (BombParty_init letters_demo)
     events_leave_explode = Some game_left_exploded
   \<and> filter (\<lambda>p. 0 < lives p) (player_list game_left_exploded) = [\<lparr>user = ''a'', lives = 3\<rparr>]
   \<and> get_winner game_left_exploded = None"
  by code_simp

section \<open>Settings\<close>

lemma set_setting_total:
  "\<exists>msg s'. set_setting int_of s setting raw = Inr (msg, s')"
  by (auto simp add: set_setting_def set_setting_try_def coerce_def Let_def
      split: option.splits sum.splits error.splits)

lemma msg_changed_not_failure:
  "msg_changed setting v \<noteq> msg_invalid_setting"
  "msg_changed setting v \<noteq> msg_invalid_value"
  "msg_changed setting v \<noteq> msg_problem"
  by (simp_all add: msg_changed_def msg_invalid_setting_def msg_invalid_value_def msg_problem_def)

text \<open>
  C6. For every setting name and every raw value, and for every behaviour \<open>int_of\<close> of the
  conversion of a string to an integer, \<open>set_setting\<close> returns a string and raises
  nothing: the invalid-setting message when the name is not a setting, the
  problem message when the coercion raises \<open>ValueError\<close>, the invalid-value message when
  the coerced value is outside the valid values of the setting, and the confirmation
  otherwise.
\<close>

theorem set_setting_never_raises:
  "(\<exists>msg s'. set_setting int_of s setting raw = Inr (msg, s'))
   \<and> (setting \<notin> set setting_names
        \<longrightarrow> set_setting int_of s setting raw = Inr (msg_invalid_setting, s))
   \<and> (setting \<in> set setting_names \<and> coerce int_of setting raw = Inl ValueError
        \<longrightarrow> set_setting int_of s setting raw = Inr (msg_problem, s))
   \<and> (\<forall>v. setting \<in> set setting_names \<and> coerce int_of setting raw = Inr v
            \<and> \<not> valid_value setting v
        \<longrightarrow> set_setting int_of s setting raw = Inr (msg_invalid_value, s))
   \<and> (\<forall>v. setting \<in> set setting_names \<and> coerce int_of setting raw = Inr v
            \<and> valid_value setting v
        \<longrightarrow> (\<exists>s'. set_setting int_of s setting raw = Inr (msg_changed setting v, s')))"
  using set_setting_total [of int_of s setting raw]
  by (simp add: set_setting_def set_setting_try_def Let_def)

theorem set_setting_never_raises_witness:
  "''volume'' \<notin> set setting_names
   \<and> set_setting py_int game_ab ''volume'' ''3'' = Inr (msg_invalid_setting, game_ab)
   \<and> ''timer'' \<in> set setting_names \<and> coerce py_int ''timer'' ''abc'' = Inl ValueError
   \<and> set_setting py_int game_ab ''timer'' ''abc'' = Inr (msg_problem, game_ab)
   \<and> coerce py_int ''timer'' ''100'' = Inr (IntVal 100) \<and> \<not> valid_value ''timer'' (IntVal 100)
   \<and> set_setting py_int game_ab ''timer'' ''100'' = Inr (msg_invalid_value, game_ab)
   \<and> coerce py_int ''timer'' ''45'' = Inr (IntVal 45) \<and> valid_value ''timer'' (IntVal 45)
   \<and> (\<exists>s'. set_setting py_int game_ab ''timer'' ''45''
              = Inr (''The timer setting has been changed to 45'', s'))"
  using set_setting_never_raises [of py_int game_ab "''volume''" "''3''"]
    set_setting_never_raises [of py_int game_ab "''timer''" "''abc''"]
    set_setting_never_raises [of py_int game_ab "''timer''" "''100''"]
    set_setting_never_raises [of py_int game_ab "''timer''" "''45''"]
  by (simp add: coerce_examples setting_names_def valid_value_def msg_changed_def str_value_def
      str_int_def)

text \<open>
  C5. In every game state, whatever the phase, a set of the \<open>lives\<close> setting to a value
  \<open>v\<close> of the valid range 1..5 succeeds, stores \<open>v\<close> in the settings and sets the lives of
  every player of the party to \<open>v\<close>; the members of the party and the two phase flags are
  unchanged.
\<close>

theorem set_setting_lives_cascade:
  assumes "int_of raw = Some v" and "1 \<le> v" and "v \<le> 5"
  shows "\<exists>s'. set_setting int_of s ''lives'' raw = Inr (msg_changed ''lives'' (IntVal v), s')
            \<and> s' = s\<lparr>bomb_settings := (bomb_settings s)\<lparr>s_lives := v\<rparr>,
                      party := map (\<lambda>(k, p). (k, p\<lparr>lives := v\<rparr>)) (party s)\<rparr>
            \<and> s_lives (bomb_settings s') = v
            \<and> (\<forall>p\<in>set (player_list s'). lives p = v)
            \<and> map fst (party s') = map fst (party s)
            \<and> started s' = started s \<and> in_progress s' = in_progress s"
  using assms
  by (auto simp add: set_setting_def set_setting_try_def coerce_def valid_value_def
      store_setting_def on_lives_set_def setting_names_def Let_def player_list_def)

theorem set_setting_lives_cascade_witness:
  "py_int ''2'' = Some 2
   \<and> started game_ab
   \<and> map lives (player_list game_ab) = [3, 3]
   \<and> (\<exists>s'. set_setting py_int game_ab ''lives'' ''2''
               = Inr (''The lives setting has been changed to 2'', s')
             \<and> s_lives (bomb_settings s') = 2
             \<and> map lives (player_list s') = [2, 2])"
proof -
  have h: "py_int ''2'' = Some 2" by (simp add: py_int_examples)
  have m: "msg_changed ''lives'' (IntVal 2) = ''The lives setting has been changed to 2''"
    by (simp add: msg_changed_def str_value_def str_int_def)
  show ?thesis
    using set_setting_lives_cascade [where int_of = py_int and raw = "''2''" and v = 2 and s = game_ab] h m
    by (auto simp add: game_ab_eq player_list_def)
qed

text \<open>
  C10. When \<open>set_setting\<close> returns one of its three failure messages, the state after the
  call is the state before it: the settings and the lives of every player are unchanged.
  The failure messages are returned exactly when the name is not a setting, the coercion
  fails or the value is not valid, and a changed state comes with the confirmation of a
  valid value only.
\<close>

theorem set_setting_failure_unchanged:
  assumes "set_setting int_of s setting raw = Inr (msg, s')"
  shows "((msg = msg_invalid_setting \<or> msg = msg_invalid_value \<or> msg = msg_problem)
            \<longrightarrow> s' = s \<and> bomb_settings s' = bomb_settings s \<and> party s' = party s
                \<and> map lives (player_list s') = map lives (player_list s))
       \<and> ((msg = msg_invalid_setting \<or> msg = msg_invalid_value \<or> msg = msg_problem)
            \<longleftrightarrow> (setting \<notin> set setting_names \<or> coerce int_of setting raw = Inl ValueError
                 \<or> (\<exists>v. coerce int_of setting raw = Inr v \<and> \<not> valid_value setting v)))
       \<and> (s' \<noteq> s \<longrightarrow> (\<exists>v. coerce int_of setting raw = Inr v \<and> valid_value setting v
                          \<and> msg = msg_changed setting v))"
proof -
  consider (a) "setting \<notin> set setting_names"
    | (b) "setting \<in> set setting_names" "coerce int_of setting raw = Inl ValueError"
    | (c) v where "setting \<in> set setting_names" "coerce int_of setting raw = Inr v"
        "\<not> valid_value setting v"
    | (d) v where "setting \<in> set setting_names" "coerce int_of setting raw = Inr v"
        "valid_value setting v"
    by (cases "coerce int_of setting raw") (auto simp add: coerce_def split: option.splits if_splits)
  then show ?thesis
  proof cases
    case a
    with assms show ?thesis by (auto simp add: set_setting_def)
  next
    case b
    with assms show ?thesis by (auto simp add: set_setting_def set_setting_try_def)
  next
    case c
    with assms show ?thesis by (auto simp add: set_setting_def set_setting_try_def)
  next
    case d
    with assms msg_changed_not_failure [of setting v] show ?thesis
      by (auto simp add: set_setting_def set_setting_try_def Let_def)
  qed
qed

theorem set_setting_failure_unchanged_witness:
  "set_setting py_int game_ab ''lives'' ''9'' = Inr (msg_invalid_value, game_ab)
   \<and> set_setting py_int game_ab ''timer'' ''abc'' = Inr (msg_problem, game_ab)
   \<and> set_setting py_int game_ab ''volume'' ''3'' = Inr (msg_invalid_setting, game_ab)
   \<and> map lives (player_list game_ab) = [3, 3]
   \<and> bomb_settings game_ab = default_settings"
proof -
  have e1: "set_setting py_int game_ab ''lives'' ''9'' = Inr (msg_invalid_value, game_ab)"
    by (simp add: set_setting_def set_setting_try_def coerce_examples valid_value_def
        setting_names_def)
  have e2: "set_setting py_int game_ab ''timer'' ''abc'' = Inr (msg_problem, game_ab)"
    by (simp add: set_setting_def set_setting_try_def coerce_examples setting_names_def)
  have e3: "set_setting py_int game_ab ''volume'' ''3'' = Inr (msg_invalid_setting, game_ab)"
    by (simp add: set_setting_def setting_names_def)
  show ?thesis
    using set_setting_failure_unchanged [OF e1] set_setting_failure_unchanged [OF e2]
      set_setting_failure_unchanged [OF e3] e1 e2 e3
    by (simp add: game_ab_eq player_list_def)
qed

section \<open>Turn advance\<close>

lemma current_player_obj_at:
  assumes "idx < length (turn_order s)" and "player_at s idx = Some p"
  shows "current_player_obj (s\<lparr>current_player_index := idx\<rparr>) = Inr p"
  using assms by (auto simp add: current_player_obj_def current_player_def player_at_def)

lemma step_index_mod:
  assumes "idx < (n::nat)"
  shows "(if idx \<noteq> n - 1 then 1 + idx else 0) = Suc idx mod n"
proof (cases "idx = n - 1")
  case True
  with assms have "idx + 1 = n" by arith
  then show ?thesis using True by simp
next
  case False
  with assms have "idx + 1 < n" by arith
  then show ?thesis using False by simp
qed

lemma next_player_loop_reaches:
  assumes look: "\<forall>j<length (turn_order s). \<exists>p. player_at s j = Some p"
  shows "idx < length (turn_order s)
    \<Longrightarrow> \<forall>m<k. \<exists>p. player_at s ((idx + m) mod length (turn_order s)) = Some p
                    \<and> (lives p = 0 \<or> user p = u)
    \<Longrightarrow> \<exists>p. player_at s ((idx + k) mod length (turn_order s)) = Some p
              \<and> lives p \<noteq> 0 \<and> user p \<noteq> u
    \<Longrightarrow> next_player_loop (s\<lparr>current_player_index := idx\<rparr>) u
          = Some (Inr (s\<lparr>current_player_index := (idx + k) mod length (turn_order s)\<rparr>))"
proof (induction k arbitrary: idx)
  case 0
  then obtain p where p: "player_at s idx = Some p" "lives p \<noteq> 0" "user p \<noteq> u" by auto
  from current_player_obj_at [OF "0.prems"(1) p(1)] p(2,3) "0.prems"(1)
  show ?case by (subst next_player_loop.simps) simp
next
  case (Suc k)
  let ?n = "length (turn_order s)"
  let ?idx' = "Suc idx mod ?n"
  from Suc.prems(2) have "\<exists>p. player_at s ((idx + 0) mod ?n) = Some p \<and> (lives p = 0 \<or> user p = u)"
    by blast
  with Suc.prems(1) obtain p where p: "player_at s idx = Some p" "lives p = 0 \<or> user p = u"
    by auto
  from Suc.prems(1) have "0 < ?n" by arith
  then have idx': "?idx' < ?n" by (rule mod_less_divisor)
  have shift: "(?idx' + m) mod ?n = (idx + Suc m) mod ?n" for m
    by (simp add: mod_add_left_eq)
  have bad: "\<forall>m<k. \<exists>p. player_at s ((?idx' + m) mod ?n) = Some p \<and> (lives p = 0 \<or> user p = u)"
  proof (intro allI impI)
    fix m assume "m < k"
    then have "Suc m < Suc k" by simp
    from Suc.prems(2) [rule_format, OF this]
    show "\<exists>p. player_at s ((?idx' + m) mod ?n) = Some p \<and> (lives p = 0 \<or> user p = u)"
      by (simp only: shift)
  qed
  have good: "\<exists>p. player_at s ((?idx' + k) mod ?n) = Some p \<and> lives p \<noteq> 0 \<and> user p \<noteq> u"
    using Suc.prems(3) by (simp only: shift)
  have "next_player_loop (s\<lparr>current_player_index := idx\<rparr>) u
        = next_player_loop (s\<lparr>current_player_index := ?idx'\<rparr>) u"
    using current_player_obj_at [OF Suc.prems(1) p(1)] p(2) step_index_mod [OF Suc.prems(1)]
    by (subst next_player_loop.simps) auto
  also have "\<dots> = Some (Inr (s\<lparr>current_player_index := (?idx' + k) mod ?n\<rparr>))"
    using Suc.IH [OF idx' bad good] .
  finally show ?case by (simp only: shift)
qed

text \<open>
  C3, as the code has it. Let the index be a position of the turn order, let the turn
  order have no repeated user, and let every position name a player of the party who
  carries that user (every state of the documented lifecycle with a turn order that is not
  empty is such a state). If a position other than the current one names a player whose lives
  are not 0 (in particular, above 0), then \<open>next_player\<close> returns, without an exception.
  It changes the index and the start timestamp only; the new index is another position,
  of a player whose lives are not 0 (so above 0 unless they are negative) and who is not
  the player who was current; it is \<open>k\<close> circular steps after the old index, and each of
  the positions stepped over names a player with 0 lives; the start timestamp is the
  clock reading.
\<close>

theorem next_player_terminates:
  assumes idx: "current_player_index s < length (turn_order s)"
    and dist: "distinct (turn_order s)"
    and look: "\<forall>j<length (turn_order s).
                 \<exists>p. player_at s j = Some p \<and> user p = turn_order s ! j"
    and other: "\<exists>j<length (turn_order s). j \<noteq> current_player_index s
                 \<and> (\<exists>p. player_at s j = Some p \<and> lives p \<noteq> 0)"
  shows "\<exists>i'. next_player s now
               = Some (Inr (s\<lparr>current_player_index := i', bomb_start_time := now\<rparr>))
           \<and> i' < length (turn_order s) \<and> i' \<noteq> current_player_index s
           \<and> (\<exists>p. player_at s i' = Some p \<and> lives p \<noteq> 0 \<and> (0 \<le> lives p \<longrightarrow> 0 < lives p)
                  \<and> user p \<noteq> turn_order s ! current_player_index s)
           \<and> (\<exists>k. 0 < k \<and> k < length (turn_order s)
                  \<and> i' = (current_player_index s + k) mod length (turn_order s)
                  \<and> (\<forall>m. 0 < m \<and> m < k
                        \<longrightarrow> (\<exists>p. player_at s ((current_player_index s + m) mod length (turn_order s))
                                    = Some p \<and> lives p = 0)))"
proof -
  let ?n = "length (turn_order s)"
  let ?i = "current_player_index s"
  let ?u = "turn_order s ! ?i"
  let ?at = "\<lambda>m. (?i + m) mod ?n"
  let ?good = "\<lambda>k. \<exists>p. player_at s (?at k) = Some p \<and> lives p \<noteq> 0 \<and> user p \<noteq> ?u"
  have npos: "0 < ?n" using idx by arith
  have at_lt: "?at m < ?n" for m using npos by simp
  have at_neq: "?at m \<noteq> ?i" if "0 < m" "m < ?n" for m
  proof (cases "?i + m < ?n")
    case True
    with that show ?thesis by simp
  next
    case False
    then have "(?i + m) mod ?n = (?i + m - ?n) mod ?n" by (simp add: mod_if)
    moreover have "?i + m - ?n < ?n" using idx that by arith
    ultimately have "(?i + m) mod ?n = ?i + m - ?n" by simp
    with that False show ?thesis by arith
  qed
  from idx look obtain pc where pc: "player_at s ?i = Some pc" "user pc = ?u" by blast
  \<comment> \<open>some offset leads to a live player other than the current one\<close>
  from other obtain j pj where j: "j < ?n" "j \<noteq> ?i" "player_at s j = Some pj" "lives pj \<noteq> 0"
    by blast
  define k0 where "k0 = (j + ?n - ?i) mod ?n"
  have k0_at: "?at k0 = j"
  proof -
    have "(?i + (j + ?n - ?i) mod ?n) mod ?n = (?i + (j + ?n - ?i)) mod ?n"
      by (simp add: mod_add_right_eq)
    also have "?i + (j + ?n - ?i) = j + ?n" using idx by arith
    also have "(j + ?n) mod ?n = j" using j(1) by simp
    finally show ?thesis by (simp add: k0_def)
  qed
  have k0_lt: "k0 < ?n" using npos by (simp add: k0_def)
  have k0_pos: "0 < k0"
  proof (rule ccontr)
    assume "\<not> 0 < k0"
    then have "k0 = 0" by simp
    with k0_at idx have "j = ?i" by simp
    with j(2) show False by simp
  qed
  from look j(1,3) have uj: "user pj = turn_order s ! j" by auto
  have "turn_order s ! j \<noteq> ?u"
    using dist j(1,2) idx by (simp add: nth_eq_iff_index_eq)
  with uj j(3,4) k0_at have good0: "0 < k0 \<and> ?good k0" using k0_pos by auto
  define k where "k = (LEAST k. 0 < k \<and> ?good k)"
  have k: "0 < k" "?good k"
    using LeastI [of "\<lambda>k. 0 < k \<and> ?good k" k0, OF good0] by (simp_all add: k_def)
  have k_le: "k \<le> k0" unfolding k_def using good0 by (rule Least_le)
  with k0_lt have k_lt: "k < ?n" by simp
  have notgood: "\<not> ?good m" if "0 < m" "m < k" for m
    using not_less_Least [of m "\<lambda>k. 0 < k \<and> ?good k"] that by (simp add: k_def)
  \<comment> \<open>every entry stepped over has 0 lives\<close>
  have skipped: "\<exists>p. player_at s (?at m) = Some p \<and> lives p = 0" if "0 < m" "m < k" for m
  proof -
    from look at_lt [of m] obtain p where p: "player_at s (?at m) = Some p"
      "user p = turn_order s ! ?at m" by blast
    from that k_lt have "?at m \<noteq> ?i" by (intro at_neq) simp_all
    with dist at_lt [of m] idx have "turn_order s ! ?at m \<noteq> ?u"
      by (simp add: nth_eq_iff_index_eq)
    with p notgood [OF that] show ?thesis by auto
  qed
  have bad: "\<forall>m<k. \<exists>p. player_at s ((?i + m) mod ?n) = Some p \<and> (lives p = 0 \<or> user p = ?u)"
  proof (intro allI impI)
    fix m assume m: "m < k"
    show "\<exists>p. player_at s ((?i + m) mod ?n) = Some p \<and> (lives p = 0 \<or> user p = ?u)"
    proof (cases "m = 0")
      case True
      with pc idx show ?thesis by simp
    next
      case False
      with skipped [of m] m show ?thesis by auto
    qed
  qed
  have look': "\<forall>j<?n. \<exists>p. player_at s j = Some p" using look by blast
  have loop: "next_player_loop s ?u = Some (Inr (s\<lparr>current_player_index := ?at k\<rparr>))"
    using next_player_loop_reaches [OF look' idx bad k(2)] by simp
  from pc idx have cur: "current_player_obj s = Inr pc"
    using current_player_obj_at [OF idx pc(1)] by simp
  have np: "next_player s now
            = Some (Inr (s\<lparr>current_player_index := ?at k, bomb_start_time := now\<rparr>))"
    using cur pc(2) loop by (simp add: next_player_def)
  from k(2) obtain p where p: "player_at s (?at k) = Some p" "lives p \<noteq> 0" "user p \<noteq> ?u"
    by blast
  from p(2) have ppos: "0 \<le> lives p \<longrightarrow> 0 < lives p" by simp
  have neq: "?at k \<noteq> ?i" using k(1) k_lt by (intro at_neq)
  show ?thesis
    using np at_lt [of k] neq p(1,2,3) ppos k(1) k_lt skipped by blast
qed

lemma game_skip_eq:
  "game_skip = game_abc\<lparr>party := [(''a'', \<lparr>user = ''a'', lives = 3\<rparr>),
       (''b'', \<lparr>user = ''b'', lives = 3\<rparr>), (''c'', \<lparr>user = ''c'', lives = 0\<rparr>)]\<rparr>"
  by (simp add: game_skip_def game_abc_eq remove_player_def)

lemma game_skip_players:
  "player_at game_skip 0 = Some \<lparr>user = ''b'', lives = 3\<rparr>"
  "player_at game_skip 1 = Some \<lparr>user = ''c'', lives = 0\<rparr>"
  "player_at game_skip (Suc 0) = Some \<lparr>user = ''c'', lives = 0\<rparr>"
  "player_at game_skip 2 = Some \<lparr>user = ''a'', lives = 3\<rparr>"
  "turn_order game_skip = [''b'', ''c'', ''a'']" "current_player_index game_skip = 0"
  by (simp_all add: game_skip_eq game_abc_eq player_at_def)

lemma less_3_cases: "j < (3::nat) \<Longrightarrow> j = 0 \<or> j = 1 \<or> j = 2"
  by arith

theorem next_player_terminates_witness:
  "current_player_index game_skip = 0
   \<and> turn_order game_skip = [''b'', ''c'', ''a'']
   \<and> map (player_at game_skip) [0, 1, 2]
       = [Some \<lparr>user = ''b'', lives = 3\<rparr>, Some \<lparr>user = ''c'', lives = 0\<rparr>,
          Some \<lparr>user = ''a'', lives = 3\<rparr>]
   \<and> next_player game_skip 105
       = Some (Inr (game_skip\<lparr>current_player_index := 2, bomb_start_time := 105\<rparr>))"
proof -
  have h1: "current_player_index game_skip < length (turn_order game_skip)"
    by (simp add: game_skip_players)
  have h2: "distinct (turn_order game_skip)" by (simp add: game_skip_players)
  have h3: "\<forall>j<length (turn_order game_skip).
              \<exists>p. player_at game_skip j = Some p \<and> user p = turn_order game_skip ! j"
  proof (intro allI impI)
    fix j assume "j < length (turn_order game_skip)"
    then have "j < 3" by (simp add: game_skip_players)
    from less_3_cases [OF this]
    show "\<exists>p. player_at game_skip j = Some p \<and> user p = turn_order game_skip ! j"
      by (auto simp add: game_skip_players)
  qed
  have h4: "\<exists>j<length (turn_order game_skip). j \<noteq> current_player_index game_skip
              \<and> (\<exists>p. player_at game_skip j = Some p \<and> lives p \<noteq> 0)"
    by (rule exI [of _ 2]) (simp add: game_skip_players)
  from next_player_terminates [OF h1 h2 h3 h4, of 105]
  obtain i' where r: "next_player game_skip 105
        = Some (Inr (game_skip\<lparr>current_player_index := i', bomb_start_time := 105\<rparr>))"
    and lt: "i' < 3" and ne: "i' \<noteq> 0"
    and alive: "\<exists>p. player_at game_skip i' = Some p \<and> lives p \<noteq> 0"
    by (auto simp add: game_skip_players)
  from less_3_cases [OF lt] ne alive have "i' = 2" by (auto simp add: game_skip_players)
  with r show ?thesis by (simp add: game_skip_players)
qed

text \<open>
  C3 as stated fails on the lives of the player reached. In the game of three the current
  player \<open>b\<close> leaves, the bomb explodes and takes the lives of \<open>b\<close> to -1, and two turns
  pass. The current player is \<open>a\<close> and \<open>c\<close> has 3 lives; \<open>next_player\<close> stops on \<open>b\<close>, whose
  lives are not above 0.
\<close>

theorem next_player_negative_counterexample:
  "run py_int lower_demo fl_exact (documented lower_demo) (BombParty_init letters_demo)
     events_negative = Some game_negative
   \<and> current_player_index game_negative = 2
   \<and> player_at game_negative 1 = Some \<lparr>user = ''c'', lives = 3\<rparr>
   \<and> next_player game_negative 140
       = Some (Inr (game_negative\<lparr>current_player_index := 0, bomb_start_time := 140\<rparr>))
   \<and> player_at game_negative 0 = Some \<lparr>user = ''b'', lives = - 1\<rparr>"
  by code_simp

text \<open>
  The hypothesis of a second live player is needed: when every other position of the turn
  order names a player with 0 lives, the loop never leaves, and \<open>next_player\<close> does not
  return.
\<close>

lemma player_at_index [simp]:
  "player_at (s\<lparr>current_player_index := i\<rparr>) j = player_at s j"
  by (simp add: player_at_def)

lemma next_player_loop_stuck:
  assumes "next_player_loop s u = Some y"
  shows "\<not> (current_player_index s < length (turn_order s)
            \<and> (\<forall>j<length (turn_order s).
                  \<exists>p. player_at s j = Some p \<and> (lives p = 0 \<or> user p = u)))"
  using assms
proof (rule next_player_loop.raw_induct [rotated], goal_cases)
  case (1 f s1 u1 y1)
  show ?case
  proof
    assume stuck: "current_player_index s1 < length (turn_order s1)
            \<and> (\<forall>j<length (turn_order s1).
                  \<exists>p. player_at s1 j = Some p \<and> (lives p = 0 \<or> user p = u1))"
    let ?n = "length (turn_order s1)"
    let ?s' = "s1\<lparr>current_player_index :=
                   (if current_player_index s1 \<noteq> ?n - 1 then 1 + current_player_index s1 else 0)\<rparr>"
    from stuck obtain p where p: "player_at s1 (current_player_index s1) = Some p"
      "lives p = 0 \<or> user p = u1" by blast
    from stuck p(1) have "current_player_obj s1 = Inr p"
      using current_player_obj_at [of "current_player_index s1" s1 p] by simp
    with p(2) 1(2) have "f ?s' u1 = Some y1" by auto
    from stuck have "0 < ?n" by arith
    then have "Suc (current_player_index s1) mod ?n < ?n" by (rule mod_less_divisor)
    with 1(1) [OF \<open>f ?s' u1 = Some y1\<close>] stuck
      step_index_mod [of "current_player_index s1" ?n]
    show False by simp
  qed
qed

lemma next_player_diverges:
  assumes idx: "current_player_index s < length (turn_order s)"
    and look: "\<forall>j<length (turn_order s). \<exists>p. player_at s j = Some p \<and> user p = turn_order s ! j"
    and dead: "\<forall>j<length (turn_order s). j \<noteq> current_player_index s
                 \<longrightarrow> (\<exists>p. player_at s j = Some p \<and> lives p = 0)"
  shows "next_player s now = None"
proof -
  from idx look obtain pc where pc: "player_at s (current_player_index s) = Some pc"
    "user pc = turn_order s ! current_player_index s" by blast
  have cur: "current_player_obj s = Inr pc"
    using current_player_obj_at [OF idx pc(1)] by simp
  have all: "\<forall>j<length (turn_order s).
               \<exists>p. player_at s j = Some p \<and> (lives p = 0 \<or> user p = user pc)"
  proof (intro allI impI)
    fix j assume j: "j < length (turn_order s)"
    show "\<exists>p. player_at s j = Some p \<and> (lives p = 0 \<or> user p = user pc)"
    proof (cases "j = current_player_index s")
      case True
      with pc show ?thesis by simp
    next
      case False
      with dead j show ?thesis by blast
    qed
  qed
  have "next_player_loop s (user pc) = None"
  proof (cases "next_player_loop s (user pc)")
    case None
    then show ?thesis .
  next
    case (Some y)
    from next_player_loop_stuck [OF this] idx all show ?thesis by blast
  qed
  with cur show ?thesis by (simp add: next_player_def)
qed

section \<open>What a call leaves unchanged\<close>

lemma next_player_loop_frame:
  assumes "next_player_loop s p = Some y"
  shows "\<forall>s'. y = Inr s' \<longrightarrow> (\<exists>i. s' = s\<lparr>current_player_index := i\<rparr>)"
  using assms
proof (rule next_player_loop.raw_induct [rotated], goal_cases)
  case (1 f s1 p1 y1)
  show ?case
  proof (cases "current_player_obj s1")
    case (Inl e)
    with 1(2) show ?thesis by auto
  next
    case (Inr q)
    show ?thesis
    proof (cases "lives q = 0 \<or> user q = p1")
      case True
      with Inr 1(2) have "f (s1\<lparr>current_player_index :=
           (if current_player_index s1 \<noteq> length (turn_order s1) - 1
            then 1 + current_player_index s1 else 0)\<rparr>) p1 = Some y1"
        by simp
      from 1(1) [OF this] show ?thesis by auto
    next
      case False
      with Inr 1(2) have "y1 = Inr s1" by simp
      then show ?thesis by (auto intro: exI [of _ "current_player_index s1"])
    qed
  qed
qed

lemma next_player_frame:
  assumes "next_player s now = Some (Inr s')"
  shows "\<exists>i. s' = s\<lparr>current_player_index := i, bomb_start_time := now\<rparr>"
proof -
  from assms obtain q where q: "current_player_obj s = Inr q"
    by (auto simp add: next_player_def split: sum.splits)
  with assms obtain s1 where l: "next_player_loop s (user q) = Some (Inr s1)"
    by (auto simp add: next_player_def split: sum.splits option.splits)
  with q assms have s': "s' = s1\<lparr>bomb_start_time := now\<rparr>"
    by (simp add: next_player_def)
  from next_player_loop_frame [OF l] obtain i where "s1 = s\<lparr>current_player_index := i\<rparr>"
    by auto
  with s' show ?thesis by auto
qed

section \<open>Used words\<close>

lemma used_words_set_letters: "set_letters s r = Inr s' \<Longrightarrow> used_words s' = used_words s"
  by (auto simp add: set_letters_def split: option.splits if_splits)

lemma used_words_on_explode: "on_explode s = Inr (m, s') \<Longrightarrow> used_words s' = used_words s"
  by (auto simp add: on_explode_def Let_def split: sum.splits)

lemma used_words_set_setting:
  "set_setting int_of s n v = Inr (m, s') \<Longrightarrow> used_words s' = used_words s"
  by (auto simp add: set_setting_def set_setting_try_def on_lives_set_def Let_def
      split: sum.splits if_splits error.splits)

lemma used_words_step:
  assumes "apply_event int_of lower fl s e = Some (Inr s')"
  shows "used_words s' =
           (case e of WordUsed m now \<Rightarrow> used_words s @ [lower m] | Close \<Rightarrow> []
            | _ \<Rightarrow> used_words s)"
proof (cases e)
  case (NextPlayer now)
  with assms next_player_frame [of s now s'] show ?thesis
    by (auto simp add: apply_event_def)
next
  case Explode
  with assms obtain m where "on_explode s = Inr (m, s')"
    by (cases "on_explode s") (auto simp add: apply_event_def)
  with Explode show ?thesis by (simp add: used_words_on_explode)
next
  case (SetSetting n v)
  with assms obtain m where "set_setting int_of s n v = Inr (m, s')"
    by (cases "set_setting int_of s n v") (auto simp add: apply_event_def)
  with SetSetting show ?thesis by (simp add: used_words_set_setting)
next
  case (SetLetters r)
  with assms show ?thesis by (simp add: apply_event_def used_words_set_letters)
qed (use assms in \<open>auto simp add: apply_event_def add_player_def remove_player_def
      on_in_progress_def on_start_def on_word_used_def on_close_def set_default_values_def\<close>)

lemma check_message_None_fresh:
  "check_message lower s m = None \<Longrightarrow> lower m \<notin> set (used_words s)"
  by (auto simp add: check_message_def Let_def split: if_splits)

lemma words_inv_step:
  assumes "apply_event int_of lower fl s e = Some (Inr s')" and "word_guard lower s e"
    and "distinct (used_words s)" and "\<forall>w\<in>set (used_words s). \<exists>t. w = lower t"
  shows "distinct (used_words s') \<and> (\<forall>w\<in>set (used_words s'). \<exists>t. w = lower t)"
proof (cases e)
  case (WordUsed m now)
  with assms(2) have "lower m \<notin> set (used_words s)"
    by (simp add: word_guard_def check_message_None_fresh)
  with used_words_step [OF assms(1)] WordUsed assms(3,4) show ?thesis
    by auto
qed (use used_words_step [OF assms(1)] assms(3,4) in auto)

lemma words_inv_run:
  "run int_of lower fl (word_guard lower) s es = Some s' \<Longrightarrow> distinct (used_words s)
   \<Longrightarrow> \<forall>w\<in>set (used_words s). \<exists>t. w = lower t
   \<Longrightarrow> distinct (used_words s') \<and> (\<forall>w\<in>set (used_words s'). \<exists>t. w = lower t)"
proof (induction es arbitrary: s)
  case Nil
  then show ?case by simp
next
  case (Cons e es)
  from Cons.prems(1) obtain s1 where g: "word_guard lower s e"
    and a: "apply_event int_of lower fl s e = Some (Inr s1)"
    and r: "run int_of lower fl (word_guard lower) s1 es = Some s'"
    by (auto split: if_splits option.splits sum.splits)
  from words_inv_step [OF a g Cons.prems(2,3)] Cons.IH [OF r] show ?case by simp
qed

text \<open>
  C7, as the code has it. For every behaviour \<open>lower\<close> of \<open>str.lower\<close> and in every state
  that a sequence of calls reaches from the constructed game, when \<open>on_word_used\<close> is
  called only on a text that \<open>check_message\<close> has just accepted: no word is recorded twice;
  every recorded word is the lowercased form of a text; once a text has been recorded,
  \<open>check_message\<close> rejects every text with the same lowercased form, so that the guard
  forbids a second \<open>on_word_used\<close> on it; and when lowercasing leaves the recorded words
  unchanged, they are pairwise different after lowercasing. Two texts count as the same
  word when \<open>str.lower\<close> gives them the same form, and not otherwise.
\<close>

theorem used_words_no_duplicates:
  assumes "run int_of lower fl (word_guard lower) (BombParty_init letters) es = Some s"
  shows "distinct (used_words s)
       \<and> (\<forall>w\<in>set (used_words s). \<exists>t. w = lower t)
       \<and> (\<forall>a b now. lower a = lower b
            \<longrightarrow> check_message lower (on_word_used lower fl s a now) b
                  = Some ''That word has already been used.''
              \<and> \<not> word_guard lower (on_word_used lower fl s a now) (WordUsed b now))
       \<and> ((\<forall>w\<in>set (used_words s). lower w = w) \<longrightarrow> distinct (map lower (used_words s)))"
proof -
  have inv: "distinct (used_words s) \<and> (\<forall>w\<in>set (used_words s). \<exists>t. w = lower t)"
    using words_inv_run [OF assms] by (simp add: BombParty_init_def)
  have rej: "check_message lower (on_word_used lower fl s a now) b
               = Some ''That word has already been used.''"
    if "lower a = lower b" for a b now
    using that by (simp add: check_message_def on_word_used_def)
  have low: "distinct (map lower (used_words s))" if "\<forall>w\<in>set (used_words s). lower w = w"
  proof -
    from that have "map lower (used_words s) = used_words s" by (simp add: map_idI)
    with inv show ?thesis by simp
  qed
  from inv rej low show ?thesis by (simp add: word_guard_def)
qed

lemma run_events_round:
  "run py_int lower_demo fl_exact (word_guard lower_demo) (BombParty_init letters_demo)
     events_round = Some game_two_words"
  by code_simp

lemma run_events_round_again:
  "run py_int lower_demo fl_exact (word_guard lower_demo) (BombParty_init letters_demo)
     (events_round @ [WordUsed ''TABLE'' 105]) = None"
  by code_simp

theorem used_words_no_duplicates_witness:
  "run py_int lower_demo fl_exact (word_guard lower_demo) (BombParty_init letters_demo)
     events_round = Some game_two_words
   \<and> used_words game_two_words = [''table'', ''cable'']
   \<and> lower_demo ''table'' = ''table'' \<and> lower_demo ''cable'' = ''cable''
   \<and> distinct (map lower_demo (used_words game_two_words))
   \<and> lower_demo ''Tab'' = lower_demo ''TAB''
   \<and> check_message lower_demo (on_word_used lower_demo fl_exact game_two_words ''Tab'' 105) ''TAB''
       = Some ''That word has already been used.''
   \<and> run py_int lower_demo fl_exact (word_guard lower_demo) (BombParty_init letters_demo)
       (events_round @ [WordUsed ''TABLE'' 105]) = None"
proof -
  have l: "lower_demo ''Tab'' = lower_demo ''TAB''" by (simp add: lower_char_def)
  have u: "used_words game_two_words = [''table'', ''cable'']"
    by (simp add: game_two_words_def)
  have f: "\<forall>w\<in>set (used_words game_two_words). lower_demo w = w"
    by (simp add: u lower_char_def)
  from used_words_no_duplicates [OF run_events_round] l u f run_events_round
    run_events_round_again
  show ?thesis by (simp add: lower_char_def)
qed

text \<open>
  C7 as stated fails. The word \<open>stra\<close>, U+00DF, \<open>e\<close> and its upper case \<open>STRASSE\<close> are two
  casings of one text, and their lowercased forms differ. Each of the two calls of
  \<open>on_word_used\<close> follows an accepting \<open>check_message\<close>, and both words are recorded.
\<close>

theorem used_words_casing_counterexample:
  "upper_demo word_eszett = ''STRASSE''
   \<and> run py_int lower_demo fl_exact (documented lower_demo) (BombParty_init letters_demo)
       events_eszett = Some game_eszett
   \<and> used_words game_eszett = [word_eszett, ''strasse'']"
  by code_simp

section \<open>Lives and turn order during the game\<close>

lemma keys_map_entry: "map fst (AList.map_entry k f al) = map fst al"
  by (induction al) auto

lemma values_map_entry:
  "x \<in> set (AList.map_entry k f al)
   \<Longrightarrow> x \<in> set al \<or> (\<exists>p. map_of al k = Some p \<and> snd x = f p)"
  by (induction al) (auto split: if_splits)

lemma values_update:
  "x \<in> set (AList.update k v al) \<Longrightarrow> snd x = v \<or> x \<in> set al"
  by (induction al) (auto split: if_splits)

lemma values_delete: "x \<in> set (AList.delete k al) \<Longrightarrow> x \<in> set al"
  by (auto simp add: AList.delete_eq)

lemma player_list_iff: "q \<in> set (player_list s) \<longleftrightarrow> (\<exists>x\<in>set (party s). q = snd x)"
  by (auto simp add: player_list_def)

lemma ball_player_list:
  "(\<forall>p\<in>set (player_list s). P p) \<longleftrightarrow> (\<forall>x\<in>set (party s). P (snd x))"
  by (auto simp add: player_list_def)

lemma lives_add_player:
  assumes "\<forall>p\<in>set (player_list s). 0 \<le> lives p" and "0 \<le> s_lives (bomb_settings s)"
  shows "\<forall>p\<in>set (player_list (add_player s u)). 0 \<le> lives p"
proof
  fix q assume "q \<in> set (player_list (add_player s u))"
  then obtain x where x: "x \<in> set (party (add_player s u))" and q: "q = snd x"
    by (auto simp add: player_list_iff ball_player_list)
  show "0 \<le> lives q"
  proof (cases "u \<in> fst ` set (party s)")
    case True
    with x q assms(1) show ?thesis by (auto simp add: add_player_def player_list_iff ball_player_list)
  next
    case False
    with x have "x \<in> set (AList.update u \<lparr>user = u, lives = s_lives (bomb_settings s)\<rparr> (party s))"
      by (simp add: add_player_def)
    from values_update [OF this] q assms show ?thesis by (auto simp add: player_list_iff ball_player_list)
  qed
qed

lemma lives_remove_player:
  assumes "\<forall>p\<in>set (player_list s). 0 \<le> lives p"
  shows "\<forall>p\<in>set (player_list (remove_player s u)). 0 \<le> lives p"
proof
  fix q assume "q \<in> set (player_list (remove_player s u))"
  then obtain x where x: "x \<in> set (party (remove_player s u))" and q: "q = snd x"
    by (auto simp add: player_list_iff ball_player_list)
  show "0 \<le> lives q"
  proof (cases "u \<in> fst ` set (party s)")
    case False
    with x q assms show ?thesis by (auto simp add: remove_player_def player_list_iff ball_player_list)
  next
    case True
    show ?thesis
    proof (cases "started s")
      case True
      with \<open>u \<in> fst ` set (party s)\<close> x
      have "x \<in> set (AList.map_entry u (\<lambda>p. p\<lparr>lives := 0\<rparr>) (party s))"
        by (simp add: remove_player_def)
      from values_map_entry [OF this] q assms show ?thesis
        by (auto simp add: player_list_iff ball_player_list)
    next
      case False
      with \<open>u \<in> fst ` set (party s)\<close> x
      have "x \<in> set (AList.delete u (party s))"
        by (simp add: remove_player_def)
      from values_delete [OF this] q assms show ?thesis
        by (auto simp add: player_list_iff ball_player_list)
    qed
  qed
qed

lemma current_player_frame:
  "current_player (s\<lparr>timer := t, bomb_start_time := b\<rparr>) = current_player s"
  by (simp add: current_player_def)

lemma lives_on_explode:
  assumes "on_explode s = Inr (m, s')" and "current_alive s"
    and "\<forall>p\<in>set (player_list s). 0 \<le> lives p"
  shows "(\<forall>p\<in>set (player_list s'). 0 \<le> lives p) \<and> bomb_settings s' = bomb_settings s"
proof -
  from assms(2) obtain p where cp: "current_player s = Inr (Some p)" and pos: "0 < lives p"
    by (auto simp add: current_alive_def split: sum.splits option.splits)
  then have look: "map_of (party s) (turn_order s ! current_player_index s) = Some p"
    by (auto simp add: current_player_def split: if_splits option.splits)
  from cp assms(1) have s': "s' = s\<lparr>timer := real_of_int (s_timer (bomb_settings s)),
        bomb_start_time := 0,
        party := AList.map_entry (turn_order s ! current_player_index s)
                   (\<lambda>p. p\<lparr>lives := lives p - 1\<rparr>) (party s)\<rparr>"
    by (simp add: on_explode_def Let_def current_player_obj_def current_player_frame)
  have "0 \<le> lives q" if "q \<in> set (player_list s')" for q
  proof -
    from that obtain x where x: "x \<in> set (party s')" and q: "q = snd x"
      by (auto simp add: player_list_iff ball_player_list)
    from x s' have "x \<in> set (AList.map_entry (turn_order s ! current_player_index s)
                   (\<lambda>p. p\<lparr>lives := lives p - 1\<rparr>) (party s))"
      by simp
    from values_map_entry [OF this] q look pos assms(3) show ?thesis
      by (auto simp add: player_list_iff ball_player_list)
  qed
  with s' show ?thesis by simp
qed

lemma lives_set_setting:
  assumes "set_setting int_of s n v = Inr (m, s')"
    and "\<forall>p\<in>set (player_list s). 0 \<le> lives p" and "0 \<le> s_lives (bomb_settings s)"
  shows "(\<forall>p\<in>set (player_list s'). 0 \<le> lives p) \<and> 0 \<le> s_lives (bomb_settings s')"
  using assms
  by (auto simp add: set_setting_def set_setting_try_def on_lives_set_def Let_def
      valid_value_def store_setting_def player_list_def
      split: sum.splits if_splits error.splits setting_value.splits)

lemma lives_inv_step:
  assumes "apply_event int_of lower fl s e = Some (Inr s')" and "host_guard lower s e"
    and "\<forall>p\<in>set (player_list s). 0 \<le> lives p" and "0 \<le> s_lives (bomb_settings s)"
  shows "(\<forall>p\<in>set (player_list s'). 0 \<le> lives p) \<and> 0 \<le> s_lives (bomb_settings s')"
proof (cases e)
  case (Join u)
  with assms lives_add_player [OF assms(3,4), of u] show ?thesis
    by (auto simp add: apply_event_def add_player_def)
next
  case (Leave u)
  with assms lives_remove_player [OF assms(3), of u] show ?thesis
    by (auto simp add: apply_event_def remove_player_def)
next
  case InProgress
  with assms show ?thesis by (auto simp add: apply_event_def on_in_progress_def player_list_def)
next
  case (Start rnd now)
  with assms show ?thesis by (auto simp add: apply_event_def on_start_def player_list_def)
next
  case (SetLetters r)
  with assms show ?thesis
    by (auto simp add: apply_event_def set_letters_def player_list_def
        split: option.splits if_splits)
next
  case (WordUsed w now)
  with assms show ?thesis by (auto simp add: apply_event_def on_word_used_def player_list_def)
next
  case (NextPlayer now)
  with assms next_player_frame [of s now s'] show ?thesis
    by (auto simp add: apply_event_def player_list_def)
next
  case Explode
  with assms obtain m where "on_explode s = Inr (m, s')" and "current_alive s"
    by (cases "on_explode s") (auto simp add: apply_event_def host_guard_def)
  from lives_on_explode [OF this assms(3)] assms(4) show ?thesis by simp
next
  case (SetSetting n v)
  with assms obtain m where "set_setting int_of s n v = Inr (m, s')"
    by (cases "set_setting int_of s n v") (auto simp add: apply_event_def)
  from lives_set_setting [OF this assms(3,4)] show ?thesis .
next
  case Close
  with assms show ?thesis
    by (auto simp add: apply_event_def on_close_def set_default_values_def player_list_def
        default_settings_def)
qed

lemma lives_inv_run:
  "run int_of lower fl (host_guard lower) s es = Some s' \<Longrightarrow> \<forall>p\<in>set (player_list s). 0 \<le> lives p
   \<Longrightarrow> 0 \<le> s_lives (bomb_settings s)
   \<Longrightarrow> (\<forall>p\<in>set (player_list s'). 0 \<le> lives p) \<and> 0 \<le> s_lives (bomb_settings s')"
proof (induction es arbitrary: s)
  case Nil
  then show ?case by simp
next
  case (Cons e es)
  from Cons.prems(1) obtain s1 where g: "host_guard lower s e"
    and a: "apply_event int_of lower fl s e = Some (Inr s1)"
    and r: "run int_of lower fl (host_guard lower) s1 es = Some s'"
    by (auto split: if_splits option.splits sum.splits)
  from lives_inv_step [OF a g Cons.prems(2,3)] Cons.IH [OF r] show ?case by simp
qed

lemma order_on_explode:
  "on_explode s = Inr (m, s')
   \<Longrightarrow> started s' = started s \<and> turn_order s' = turn_order s
       \<and> map fst (party s') = map fst (party s)"
  by (auto simp add: on_explode_def Let_def keys_map_entry split: sum.splits)

lemma keys_on_lives_set: "map fst (party (on_lives_set s)) = map fst (party s)"
  by (simp add: on_lives_set_def case_prod_unfold)

lemma order_set_setting:
  "set_setting int_of s n v = Inr (m, s')
   \<Longrightarrow> started s' = started s \<and> turn_order s' = turn_order s
       \<and> map fst (party s') = map fst (party s)"
  by (auto simp add: set_setting_def set_setting_try_def Let_def keys_on_lives_set
      on_lives_set_def split: sum.splits if_splits error.splits)

lemma order_step:
  assumes "apply_event int_of lower fl s e = Some (Inr s')" and "documented lower s e" and "started s"
    and "e \<noteq> Close"
  shows "started s' \<and> turn_order s' = turn_order s \<and> prefix (map fst (party s)) (map fst (party s'))"
proof (cases e)
  case (Join u)
  with assms show ?thesis
    by (auto simp add: apply_event_def add_player_def AList.update_keys)
next
  case (Leave u)
  with assms show ?thesis
    by (auto simp add: apply_event_def remove_player_def keys_map_entry)
next
  case InProgress
  with assms show ?thesis by (auto simp add: apply_event_def on_in_progress_def)
next
  case (Start rnd now)
  with assms show ?thesis by (simp add: documented_def)
next
  case (SetLetters r)
  with assms show ?thesis
    by (auto simp add: apply_event_def set_letters_def split: option.splits if_splits)
next
  case (WordUsed w now)
  with assms show ?thesis by (auto simp add: apply_event_def on_word_used_def)
next
  case (NextPlayer now)
  with assms next_player_frame [of s now s'] show ?thesis
    by (auto simp add: apply_event_def)
next
  case Explode
  with assms obtain m where "on_explode s = Inr (m, s')"
    by (cases "on_explode s") (auto simp add: apply_event_def)
  from order_on_explode [OF this] assms(3) show ?thesis by simp
next
  case (SetSetting n v)
  with assms obtain m where "set_setting int_of s n v = Inr (m, s')"
    by (cases "set_setting int_of s n v") (auto simp add: apply_event_def)
  from order_set_setting [OF this] assms(3) show ?thesis by simp
next
  case Close
  with assms show ?thesis by simp
qed

lemma remove_player_started:
  assumes "started s"
  shows "turn_order (remove_player s u) = turn_order s
       \<and> map fst (party (remove_player s u)) = map fst (party s)
       \<and> map_of (party (remove_player s u)) u
           = map_option (\<lambda>p. p\<lparr>lives := 0\<rparr>) (map_of (party s) u)"
proof (cases "u \<in> fst ` set (party s)")
  case True
  with assms show ?thesis
    by (simp add: remove_player_def keys_map_entry AList.map_of_map_entry map_option_case)
next
  case False
  then have "map_of (party s) u = None" by (simp add: map_of_eq_None_iff)
  with False show ?thesis by (simp add: remove_player_def)
qed

text \<open>
  C8, as the code has it. In every state that a sequence of calls reaches from the
  constructed game under \<open>host_guard\<close> (the bomb explodes only on a current player who has
  lives left), the lives of every player are at least 0. From a started state, no call
  of the lifecycle other than \<open>on_close\<close> changes the turn order or removes a key of the
  party (the keys before the call are a prefix of the keys after it), and the game stays
  started; \<open>on_start\<close>, which writes the turn order, is not called on a started game. In a
  started state \<open>remove_player\<close> keeps the turn order and the keys of the party and sets the
  lives of the player to 0.
\<close>

theorem lifecycle_lives_and_order:
  assumes "run int_of lower fl (host_guard lower) (BombParty_init letters) es = Some s"
  shows "(\<forall>p\<in>set (player_list s). 0 \<le> lives p)
       \<and> (\<forall>e s'. started s \<and> host_guard lower s e \<and> e \<noteq> Close
                  \<and> apply_event int_of lower fl s e = Some (Inr s')
            \<longrightarrow> started s' \<and> turn_order s' = turn_order s
                \<and> prefix (map fst (party s)) (map fst (party s')))
       \<and> (\<forall>u. started s
            \<longrightarrow> turn_order (remove_player s u) = turn_order s
                \<and> map fst (party (remove_player s u)) = map fst (party s)
                \<and> map_of (party (remove_player s u)) u
                    = map_option (\<lambda>p. p\<lparr>lives := 0\<rparr>) (map_of (party s) u))"
proof -
  have "\<forall>p\<in>set (player_list s). 0 \<le> lives p"
    using lives_inv_run [OF assms]
    by (simp add: BombParty_init_def player_list_def default_settings_def)
  moreover have "started s' \<and> turn_order s' = turn_order s
                \<and> prefix (map fst (party s)) (map fst (party s'))"
    if "started s" "host_guard lower s e" "e \<noteq> Close"
      "apply_event int_of lower fl s e = Some (Inr s')"
    for e s'
    using order_step [of int_of lower fl s e s'] that by (simp add: host_guard_def)
  ultimately show ?thesis using remove_player_started [of s] by blast
qed

lemma run_events_explode:
  "run py_int lower_demo fl_exact (host_guard lower_demo) (BombParty_init letters_demo)
     events_explode = Some game_exploded"
  by code_simp

lemma game_exploded_eval:
  "started game_exploded" "lives_list game_exploded = [0, 2]"
  "turn_order game_exploded = [''b'', ''a'']"
  "lives_list (remove_player game_exploded ''b'') = [0, 0]"
  "map fst (party (remove_player game_exploded ''b'')) = [''a'', ''b'']"
  "turn_order (remove_player game_exploded ''b'') = [''b'', ''a'']"
  by (simp_all add: game_exploded_def game_ab_eq lives_list_def player_list_def remove_player_def)

theorem lifecycle_lives_and_order_witness:
  "run py_int lower_demo fl_exact (host_guard lower_demo) (BombParty_init letters_demo)
     events_explode = Some game_exploded
   \<and> started game_exploded
   \<and> lives_list game_exploded = [0, 2]
   \<and> turn_order (remove_player game_exploded ''b'') = turn_order game_exploded
   \<and> map fst (party (remove_player game_exploded ''b'')) = map fst (party game_exploded)
   \<and> lives_list (remove_player game_exploded ''b'') = [0, 0]"
  using lifecycle_lives_and_order [OF run_events_explode] run_events_explode game_exploded_eval
  by simp

text \<open>
  C8 as stated fails. With the calls as documented, the current player leaves the started
  game and the bomb then explodes: \<open>on_explode\<close> takes a life from a player who has none, and
  the lives are -1. And \<open>on_close\<close> on a started game empties the party.
\<close>

theorem lifecycle_lives_counterexample:
  "map_option lives_list
     (run py_int lower_demo fl_exact (documented lower_demo) (BombParty_init letters_demo)
        events_leave_explode) = Some [3, - 1]
   \<and> map_option started
       (run py_int lower_demo fl_exact (documented lower_demo) (BombParty_init letters_demo)
          [Join ''a'', Join ''b'', Start rnd_zero 100]) = Some True
   \<and> map_option party
       (run py_int lower_demo fl_exact (documented lower_demo) (BombParty_init letters_demo)
          events_close) = Some []"
  by code_simp

section \<open>Start of the game\<close>

lemma index_set_setting:
  "set_setting int_of s n v = Inr (m, s') \<Longrightarrow> current_player_index s' = current_player_index s"
  by (auto simp add: set_setting_def set_setting_try_def on_lives_set_def Let_def
      split: sum.splits if_splits error.splits)

lemma index_on_explode:
  "on_explode s = Inr (m, s') \<Longrightarrow> current_player_index s' = current_player_index s"
  by (auto simp add: on_explode_def Let_def split: sum.splits)

lemma index_inv_step:
  assumes "apply_event int_of lower fl s e = Some (Inr s')" and "documented lower s e"
    and "\<not> started s \<longrightarrow> current_player_index s = 0"
  shows "\<not> started s' \<longrightarrow> current_player_index s' = 0"
proof (cases e)
  case (Join u)
  with assms show ?thesis by (auto simp add: apply_event_def add_player_def split: if_splits)
next
  case (Leave u)
  with assms show ?thesis by (auto simp add: apply_event_def remove_player_def split: if_splits)
next
  case InProgress
  with assms show ?thesis by (auto simp add: apply_event_def on_in_progress_def)
next
  case (Start rnd now)
  with assms show ?thesis by (auto simp add: apply_event_def on_start_def)
next
  case (SetLetters r)
  with assms show ?thesis
    by (auto simp add: apply_event_def documented_def set_letters_def
        split: option.splits if_splits)
next
  case (WordUsed w now)
  with assms show ?thesis by (auto simp add: apply_event_def documented_def on_word_used_def)
next
  case (NextPlayer now)
  with assms next_player_frame [of s now s'] show ?thesis
    by (auto simp add: apply_event_def documented_def)
next
  case Explode
  with assms obtain m where "on_explode s = Inr (m, s')"
    by (cases "on_explode s") (auto simp add: apply_event_def)
  from order_on_explode [OF this] Explode assms(2) show ?thesis by (simp add: documented_def)
next
  case (SetSetting n v)
  with assms obtain m where m: "set_setting int_of s n v = Inr (m, s')"
    by (cases "set_setting int_of s n v") (auto simp add: apply_event_def)
  from order_set_setting [OF m] index_set_setting [OF m] assms(3) show ?thesis by simp
next
  case Close
  with assms show ?thesis by (auto simp add: apply_event_def on_close_def set_default_values_def)
qed

lemma index_inv_run:
  "run int_of lower fl (documented lower) s es = Some s'
   \<Longrightarrow> \<not> started s \<longrightarrow> current_player_index s = 0
   \<Longrightarrow> \<not> started s' \<longrightarrow> current_player_index s' = 0"
proof (induction es arbitrary: s)
  case Nil
  then show ?case by simp
next
  case (Cons e es)
  from Cons.prems(1) obtain s1 where g: "documented lower s e"
    and a: "apply_event int_of lower fl s e = Some (Inr s1)"
    and r: "run int_of lower fl (documented lower) s1 es = Some s'"
    by (auto split: if_splits option.splits sum.splits)
  from index_inv_step [OF a g Cons.prems(2)] Cons.IH [OF r] show ?case by simp
qed

text \<open>
  C2. For every state and every random source, after \<open>on_start\<close> the turn order is a
  permutation of the keys of the party at that moment (same multiset, same set, same
  length), and the party is unchanged. \<open>on_start\<close> does not assign the current turn index;
  the index is 0 after \<open>on_start\<close> in the lifecycle, that is, when \<open>on_start\<close> is called on a
  game that is not started yet, in a state that the documented calls reach from the
  constructed game: there the index is 0 before the call.
\<close>

theorem on_start_turn_order:
  "mset (turn_order (on_start s rnd now)) = mset (map fst (party s))
   \<and> set (turn_order (on_start s rnd now)) = fst ` set (party s)
   \<and> length (turn_order (on_start s rnd now)) = length (party s)
   \<and> party (on_start s rnd now) = party s
   \<and> (run int_of lower fl (documented lower) (BombParty_init letters) es = Some s
        \<and> documented lower s (Start rnd now)
      \<longrightarrow> current_player_index (on_start s rnd now) = 0)"
proof -
  have m: "mset (turn_order (on_start s rnd now)) = mset (map fst (party s))"
    by (simp add: on_start_def mset_shuffle)
  have "set (turn_order (on_start s rnd now)) = set (map fst (party s))"
    using m by (rule mset_eq_setD)
  moreover have "length (turn_order (on_start s rnd now)) = length (map fst (party s))"
    using m by (rule mset_eq_length)
  moreover have "current_player_index (on_start s rnd now) = 0"
    if "run int_of lower fl (documented lower) (BombParty_init letters) es = Some s"
      and "documented lower s (Start rnd now)"
  proof -
    from index_inv_run [OF that(1)] have "\<not> started s \<longrightarrow> current_player_index s = 0"
      by (simp add: BombParty_init_def)
    with that(2) show ?thesis by (simp add: documented_def on_start_def)
  qed
  ultimately show ?thesis using m by (simp add: on_start_def)
qed

lemma run_events_lobby:
  "run py_int lower_demo fl_exact (documented lower_demo) (BombParty_init letters_demo)
     events_lobby = Some game_lobby"
  by code_simp

lemma game_lobby_eval:
  "\<not> started game_lobby" "map fst (party game_lobby) = [''a'', ''b'', ''c'']"
  "on_start game_lobby rnd_zero 100 = game_abc"
  by (simp_all add: game_lobby_def game_abc_def add_player_def BombParty_init_def)

theorem on_start_turn_order_witness:
  "run py_int lower_demo fl_exact (documented lower_demo) (BombParty_init letters_demo)
     events_lobby = Some game_lobby
   \<and> documented lower_demo game_lobby (Start rnd_zero 100)
   \<and> map fst (party game_lobby) = [''a'', ''b'', ''c'']
   \<and> turn_order (on_start game_lobby rnd_zero 100) = [''b'', ''c'', ''a'']
   \<and> mset (turn_order (on_start game_lobby rnd_zero 100)) = mset [''a'', ''b'', ''c'']
   \<and> current_player_index (on_start game_lobby rnd_zero 100) = 0"
proof -
  have g: "documented lower_demo game_lobby (Start rnd_zero 100)"
    by (simp add: documented_def game_lobby_eval)
  from on_start_turn_order [where s = game_lobby and rnd = rnd_zero and now = 100
      and int_of = py_int and lower = lower_demo and fl = fl_exact and letters = letters_demo
      and es = events_lobby]
    run_events_lobby g game_lobby_eval
  show ?thesis by (simp add: game_abc_eq)
qed

section \<open>The turn order in the states of the lifecycle\<close>

text \<open>
  Every state that the documented calls reach from the constructed game is well formed. So
  in such a state with a turn order that is not empty, the index is a position of the turn
  order, the turn order has no repeated user, and every position names a player of the
  party who carries that user: the hypotheses on the shape of the state under which
  \<open>next_player\<close> is studied above.
\<close>

lemma member_update:
  "x \<in> set (AList.update k v al) \<Longrightarrow> x = (k, v) \<or> x \<in> set al"
  by (induction al) (auto split: if_splits)

lemma member_map_entry:
  "x \<in> set (AList.map_entry k f al)
   \<Longrightarrow> x \<in> set al \<or> (\<exists>p. (k, p) \<in> set al \<and> x = (k, f p))"
  by (induction al) (auto split: if_splits)

lemma users_map_entry:
  assumes "\<forall>x\<in>set al. user (snd x) = fst x" and "\<And>p. user (f p) = user p"
  shows "\<forall>x\<in>set (AList.map_entry k f al). user (snd x) = fst x"
proof
  fix x assume "x \<in> set (AList.map_entry k f al)"
  from member_map_entry [OF this] assms show "user (snd x) = fst x" by force
qed

lemma well_formed_add_player: "well_formed s \<Longrightarrow> well_formed (add_player s u)"
  unfolding well_formed_def add_player_def
  by (auto simp add: AList.distinct_update AList.dom_update dest: member_update)

lemma well_formed_remove_player: "well_formed s \<Longrightarrow> well_formed (remove_player s u)"
  unfolding well_formed_def remove_player_def
  using users_map_entry [of "party s" "\<lambda>p. p\<lparr>lives := 0\<rparr>" u]
  by (auto simp add: keys_map_entry AList.dom_map_entry AList.distinct_delete
      dest: values_delete)

lemma well_formed_on_start:
  assumes "well_formed s" and "\<not> started s"
  shows "well_formed (on_start s rnd now)"
proof -
  have m: "mset (shuffle rnd (map fst (party s))) = mset (map fst (party s))"
    by (rule mset_shuffle)
  from m have "set (shuffle rnd (map fst (party s))) = set (map fst (party s))"
    by (rule mset_eq_setD)
  moreover from assms(1) have "distinct (map fst (party s))" by (simp add: well_formed_def)
  with mset_eq_imp_distinct_iff [OF m] have "distinct (shuffle rnd (map fst (party s)))"
    by simp
  ultimately show ?thesis using assms by (auto simp add: well_formed_def on_start_def)
qed

lemma next_player_loop_current:
  assumes "next_player_loop s u = Some y"
  shows "\<forall>s'. y = Inr s' \<longrightarrow> (\<exists>q. current_player_obj s' = Inr q)"
  using assms
proof (rule next_player_loop.raw_induct [rotated], goal_cases)
  case (1 f s1 p1 y1)
  show ?case
  proof (cases "current_player_obj s1")
    case (Inl e)
    with 1(2) show ?thesis by auto
  next
    case (Inr q)
    show ?thesis
    proof (cases "lives q = 0 \<or> user q = p1")
      case True
      with Inr 1(2) have "f (s1\<lparr>current_player_index :=
           (if current_player_index s1 \<noteq> length (turn_order s1) - 1
            then 1 + current_player_index s1 else 0)\<rparr>) p1 = Some y1"
        by simp
      from 1(1) [OF this] show ?thesis by auto
    next
      case False
      with Inr 1(2) have "y1 = Inr s1" by simp
      with Inr show ?thesis by auto
    qed
  qed
qed

lemma current_player_obj_index:
  "current_player_obj s = Inr q \<Longrightarrow> current_player_index s < length (turn_order s)"
  by (auto simp add: current_player_obj_def current_player_def
      split: if_splits sum.splits option.splits)

lemma well_formed_next_player:
  assumes "next_player s now = Some (Inr s')" and "well_formed s"
  shows "well_formed s'"
proof -
  from assms(1) obtain q where q: "current_player_obj s = Inr q"
    by (auto simp add: next_player_def split: sum.splits)
  with assms(1) obtain s1 where l: "next_player_loop s (user q) = Some (Inr s1)"
    and s': "s' = s1\<lparr>bomb_start_time := now\<rparr>"
    by (auto simp add: next_player_def split: sum.splits option.splits)
  from next_player_loop_current [OF l] obtain q1 where "current_player_obj s1 = Inr q1"
    by auto
  then have i: "current_player_index s1 < length (turn_order s1)"
    by (rule current_player_obj_index)
  from next_player_loop_frame [OF l] obtain i where "s1 = s\<lparr>current_player_index := i\<rparr>"
    by auto
  with i s' assms(2) show ?thesis by (auto simp add: well_formed_def)
qed

lemma well_formed_on_explode:
  assumes "on_explode s = Inr (m, s')" and "well_formed s"
  shows "well_formed s'"
  using assms
    users_map_entry [of "party s" "\<lambda>p. p\<lparr>lives := lives p - 1\<rparr>"
      "turn_order s ! current_player_index s"]
  by (auto simp add: on_explode_def Let_def well_formed_def keys_map_entry AList.dom_map_entry
      split: sum.splits)

lemma well_formed_on_lives_set: "well_formed s \<Longrightarrow> well_formed (on_lives_set s)"
  by (auto simp add: well_formed_def on_lives_set_def case_prod_unfold comp_def image_image)

lemma well_formed_settings:
  "well_formed (s\<lparr>bomb_settings := b\<rparr>) = well_formed s"
  by (simp add: well_formed_def)

lemma well_formed_set_setting:
  assumes "set_setting int_of s n v = Inr (m, s')" and "well_formed s"
  shows "well_formed s'"
  using assms
  by (auto simp add: set_setting_def set_setting_try_def Let_def well_formed_settings
      well_formed_on_lives_set split: sum.splits if_splits error.splits)

lemma well_formed_step:
  assumes "apply_event int_of lower fl s e = Some (Inr s')" and "documented lower s e"
    and "well_formed s"
  shows "well_formed s'"
proof (cases e)
  case (Join u)
  with assms show ?thesis by (auto simp add: apply_event_def well_formed_add_player)
next
  case (Leave u)
  with assms show ?thesis by (auto simp add: apply_event_def well_formed_remove_player)
next
  case InProgress
  with assms show ?thesis by (auto simp add: apply_event_def on_in_progress_def well_formed_def)
next
  case (Start rnd now)
  with assms show ?thesis
    by (auto simp add: apply_event_def documented_def well_formed_on_start)
next
  case (SetLetters r)
  with assms show ?thesis
    by (auto simp add: apply_event_def set_letters_def well_formed_def
        split: option.splits if_splits)
next
  case (WordUsed w now)
  with assms show ?thesis by (auto simp add: apply_event_def on_word_used_def well_formed_def)
next
  case (NextPlayer now)
  with assms show ?thesis by (auto simp add: apply_event_def intro: well_formed_next_player)
next
  case Explode
  with assms obtain m where "on_explode s = Inr (m, s')"
    by (cases "on_explode s") (auto simp add: apply_event_def)
  from well_formed_on_explode [OF this assms(3)] show ?thesis .
next
  case (SetSetting n v)
  with assms obtain m where "set_setting int_of s n v = Inr (m, s')"
    by (cases "set_setting int_of s n v") (auto simp add: apply_event_def)
  from well_formed_set_setting [OF this assms(3)] show ?thesis .
next
  case Close
  with assms show ?thesis
    by (auto simp add: apply_event_def on_close_def set_default_values_def well_formed_def)
qed

lemma well_formed_run:
  "run int_of lower fl (documented lower) s es = Some s' \<Longrightarrow> well_formed s
   \<Longrightarrow> well_formed s'"
proof (induction es arbitrary: s)
  case Nil
  then show ?case by simp
next
  case (Cons e es)
  from Cons.prems(1) obtain s1 where g: "documented lower s e"
    and a: "apply_event int_of lower fl s e = Some (Inr s1)"
    and r: "run int_of lower fl (documented lower) s1 es = Some s'"
    by (auto split: if_splits option.splits sum.splits)
  from well_formed_step [OF a g Cons.prems(2)] Cons.IH [OF r] show ?case by simp
qed

lemma well_formed_lookup:
  assumes "well_formed s" and "j < length (turn_order s)"
  shows "\<exists>p. player_at s j = Some p \<and> user p = turn_order s ! j"
proof -
  from assms(2) have "turn_order s ! j \<in> set (turn_order s)" by (rule nth_mem)
  with assms(1) have "turn_order s ! j \<in> fst ` set (party s)"
    by (auto simp add: well_formed_def)
  then obtain p where p: "(turn_order s ! j, p) \<in> set (party s)" by force
  with assms(1) have "map_of (party s) (turn_order s ! j) = Some p"
    by (simp add: well_formed_def)
  moreover from p assms(1) have "user p = turn_order s ! j"
    by (force simp add: well_formed_def)
  ultimately show ?thesis by (simp add: player_at_def)
qed

lemma reachable_turn_order:
  assumes "run int_of lower fl (documented lower) (BombParty_init letters) es = Some s"
    and "turn_order s \<noteq> []"
  shows "current_player_index s < length (turn_order s) \<and> distinct (turn_order s)
       \<and> (\<forall>j<length (turn_order s).
             \<exists>p. player_at s j = Some p \<and> user p = turn_order s ! j)"
proof -
  have "well_formed (BombParty_init letters)"
    by (simp add: well_formed_def BombParty_init_def)
  from well_formed_run [OF assms(1) this] have w: "well_formed s" .
  with assms(2) well_formed_lookup [OF w] show ?thesis by (simp add: well_formed_def)
qed

end
